theory Spec2Isabelle
  imports Main "HOL-Library.Multiset"
begin

section \<open>The mixed product generator of \<^verbatim>\<open>mixed_product.hpp\<close>\<close>

text \<open>
  The header defines the class template \<^verbatim>\<open>MixedProductor<Container, RestContainers...>\<close>,
  a chain of nodes closed by the specialisation \<^verbatim>\<open>MixedProductor<>\<close>, and a nested class
  \<^verbatim>\<open>Iterator\<close> with the same recursive shape. The embedding keeps both chains as
  datatypes. Conventions:

  \<^item> The variadic pack of container types becomes a list of containers over one element
    type \<open>'a\<close>; an emitted \<^verbatim>\<open>std::tuple\<close> becomes a list with one element per container.
  \<^item> A container is the list of its elements. A raw container iterator is the index of
    the element it points to, \<^verbatim>\<open>std::begin\<close> is index \<open>0\<close> and \<^verbatim>\<open>std::end\<close> is the length;
    \<^verbatim>\<open>++iter\<close> adds one and \<^verbatim>\<open>==\<close> compares indices. Dereferencing an index that is not
    below the length has no defined behaviour in the source, so \<open>deref\<close> returns \<open>None\<close>
    there.
  \<^item> \<^verbatim>\<open>bigint_t\<close> (\<^verbatim>\<open>size_t\<close>) is modelled by \<open>nat\<close>: the development describes the
    algorithm for counters that do not exceed the range of \<^verbatim>\<open>size_t\<close>.
  \<^item> The members \<^verbatim>\<open>size_\<close>, \<^verbatim>\<open>fakesize_\<close> and \<^verbatim>\<open>total_fakesize_\<close> are written \<open>size_m\<close>,
    \<open>fakesize_m\<close> and \<open>total_fakesize_m\<close>; the iterator members \<^verbatim>\<open>begin\<close> and \<^verbatim>\<open>end\<close> are
    \<open>begin_m\<close> and \<open>end_m\<close>; the member functions \<^verbatim>\<open>begin()\<close> and \<^verbatim>\<open>end()\<close> are \<open>begin_it\<close>
    and \<open>end_it\<close>.
  \<^item> The \<^verbatim>\<open>owner\<close> pointer of an iterator node is made explicit: every iterator
    operation that reads or writes the owner takes the owner chain as an argument and
    returns the updated chain. The C++ types force an iterator chain and its owner chain
    to have the same number of nodes; functions of both are defined on such pairs only.
  \<^item> The two loops that the source does not bound (the coprime search of
    \<^verbatim>\<open>set_size\<close> and the skip loop of \<^verbatim>\<open>operator++\<close>) are partial functions into \<open>option\<close>,
    where \<open>None\<close> stands for a loop that does not return.
\<close>

subsection \<open>The owner chain\<close>

datatype 'a MixedProductor =
    Base (total_fakesize_m : nat)
  | Node (container : "'a list") (size_m : nat) (fakesize_m : nat)
         (rest_products : "'a MixedProductor")

text \<open>
  The constructor, called by \<^verbatim>\<open>iter::mixed_product(containers...)\<close>: \<^verbatim>\<open>size_{0}\<close>,
  \<^verbatim>\<open>fakesize_{0}\<close> and \<^verbatim>\<open>total_fakesize_{0}\<close>. The chain without nodes is the
  \<^verbatim>\<open>MixedProductor<>\<close> that closes every chain; for no arguments at all the header has an
  overload of its own, which returns an array with one empty tuple.
\<close>

fun mixed_product :: "'a list list \<Rightarrow> 'a MixedProductor" where
  "mixed_product [] = Base 0"
| "mixed_product (c # cs) = Node c 0 0 (mixed_product cs)"

text \<open>
  \<^verbatim>\<open>total_fakesize(fsz = 0)\<close> forwards to the base of the chain, stores \<open>fsz\<close> there when
  it is not zero and returns the stored value.
\<close>

fun total_fakesize :: "nat \<Rightarrow> 'a MixedProductor \<Rightarrow> nat \<times> 'a MixedProductor" where
  "total_fakesize fsz (Base t) =
     (let t' = (if fsz \<noteq> 0 then fsz else t) in (t', Base t'))"
| "total_fakesize fsz (Node c s f r) =
     (case total_fakesize fsz r of (v, r') \<Rightarrow> (v, Node c s f r'))"

text \<open>\<^verbatim>\<open>gcd(a, b) = (!b ? a : gcd(b, a % b))\<close>\<close>

fun gcd_mp :: "nat \<Rightarrow> nat \<Rightarrow> nat" where
  "gcd_mp a b = (if b = 0 then a else gcd_mp b (a mod b))"

declare gcd_mp.simps [simp del]

text \<open>
  The loop \<^verbatim>\<open>while (gcd(fakesize_, total_fakesize()) != 1) ++fakesize_;\<close> of \<^verbatim>\<open>set_size\<close>,
  as a function of the two values it reads.
\<close>

partial_function (option) set_size_loop :: "nat \<Rightarrow> nat \<Rightarrow> nat option" where
  "set_size_loop fakesize tot =
     (if gcd_mp fakesize tot \<noteq> 1 then set_size_loop (fakesize + 1) tot
      else Some fakesize)"

declare set_size_loop.simps [code]

fun set_size :: "nat \<Rightarrow> 'a MixedProductor \<Rightarrow> 'a MixedProductor option" where
  "set_size sz (Node c s f r) =
     (if sz = 0 then Some (Node c s f r)
      else
        let this = Node c sz sz r in
        if fst (total_fakesize 0 this) \<noteq> 0 then
          (case set_size_loop sz (fst (total_fakesize 0 this)) of
             None \<Rightarrow> None
           | Some f' \<Rightarrow>
               Some (snd (total_fakesize (f' * fst (total_fakesize 0 this)) (Node c sz f' r))))
        else Some (snd (total_fakesize sz this)))"

subsection \<open>The iterator chain\<close>

datatype Iterator =
    BaseIter (base_counter : nat)
  | NodeIter (iter : nat) (begin_m : nat) (end_m : nat) (rest_iter : Iterator) (counter : nat)

fun is_base_iter :: "Iterator \<Rightarrow> bool" where
  "is_base_iter (BaseIter _) = True"
| "is_base_iter (NodeIter _ _ _ _ _) = False"

fun begin_it :: "'a MixedProductor \<Rightarrow> Iterator" where
  "begin_it (Base t) = BaseIter 0"
| "begin_it (Node c s f r) = NodeIter 0 0 (length c) (begin_it r) 0"

fun end_it :: "'a MixedProductor \<Rightarrow> Iterator" where
  "end_it (Base t) = BaseIter 0"
| "end_it (Node c s f r) = NodeIter (length c) (length c) (length c) (end_it r) 0"

fun is_fake :: "'a MixedProductor \<Rightarrow> Iterator \<Rightarrow> bool" where
  "is_fake (Base t) (BaseIter g) = False"
| "is_fake (Node c s f r) (NodeIter i b e ri cnt) =
     (if cnt < s \<or> f = 0 then False else (if cnt < f then True else False))"

fun global_counter :: "Iterator \<Rightarrow> nat" where
  "global_counter (BaseIter g) = g"
| "global_counter (NodeIter i b e ri cnt) = global_counter ri"

fun all_sizes_discovered :: "'a MixedProductor \<Rightarrow> Iterator \<Rightarrow> bool" where
  "all_sizes_discovered (Base t) (BaseIter g) = True"
| "all_sizes_discovered (Node c s f r) (NodeIter i b e ri cnt) =
     (f \<noteq> 0 \<and> all_sizes_discovered r ri)"

text \<open>Equality of two raw container iterators, \<^verbatim>\<open>this->iter == this->end\<close>.\<close>

definition raw_eq :: "nat \<Rightarrow> nat \<Rightarrow> bool" where
  "raw_eq i j = (i = j)"

text \<open>
  \<^verbatim>\<open>do_increment\<close> returns the flag of the source together with the owner chain and the
  iterator chain after the call.
\<close>

fun do_increment ::
  "'a MixedProductor \<Rightarrow> Iterator \<Rightarrow> (bool \<times> 'a MixedProductor \<times> Iterator) option" where
  "do_increment (Base t) (BaseIter g) = Some (False, Base t, BaseIter (g + 1))"
| "do_increment (Node c s f r) (NodeIter i b e ri cnt) =
     (let i1 = (if \<not> is_fake (Node c s f r) (NodeIter i b e ri cnt) then i + 1 else i);
          cnt1 = cnt + 1
      in
      if raw_eq i1 e then
        (case (if cnt1 > 0 \<and> f = 0 then set_size cnt1 (Node c s f r)
               else Some (Node c s f r)) of
           None \<Rightarrow> None
         | Some owner \<Rightarrow>
             if \<not> is_fake owner (NodeIter i1 b e ri cnt1) then
               (case do_increment (rest_products owner) ri of
                  None \<Rightarrow> None
                | Some (fk, r', ri') \<Rightarrow>
                    Some (fk, Node (container owner) (size_m owner) (fakesize_m owner) r',
                          NodeIter b b e ri' 0))
             else
               (case do_increment (rest_products owner) ri of
                  None \<Rightarrow> None
                | Some (fk, r', ri') \<Rightarrow>
                    Some (True, Node (container owner) (size_m owner) (fakesize_m owner) r',
                          NodeIter i1 b e ri' cnt1)))
      else
        (case do_increment r ri of
           None \<Rightarrow> None
         | Some (fk, r', ri') \<Rightarrow> Some (fk, Node c s f r', NodeIter i1 b e ri' cnt1)))"

text \<open>
  \<^verbatim>\<open>operator++\<close>: the do-while loop over \<^verbatim>\<open>do_increment\<close>, with the assignment of
  \<^verbatim>\<open>owner->end()\<close> when every size is known and the global counter has reached the total.
\<close>

partial_function (option) operator_inc ::
  "'a MixedProductor \<times> Iterator \<Rightarrow> ('a MixedProductor \<times> Iterator) option" where
  "operator_inc st =
     (case do_increment (fst st) (snd st) of
        None \<Rightarrow> None
      | Some res \<Rightarrow>
          if all_sizes_discovered (fst (snd res)) (snd (snd res))
             \<and> global_counter (snd (snd res)) = fst (total_fakesize 0 (fst (snd res)))
          then Some (fst (snd res), end_it (fst (snd res)))
          else if fst res then operator_inc (snd res)
          else Some (snd res))"

declare operator_inc.simps [code]

text \<open>\<^verbatim>\<open>operator!=\<close> and \<^verbatim>\<open>operator==\<close> of the two iterator classes.\<close>

fun ne :: "Iterator \<Rightarrow> Iterator \<Rightarrow> bool" where
  "ne (BaseIter g) (BaseIter g') = False"
| "ne (NodeIter i b e ri cnt) (NodeIter i' b' e' ri' cnt') =
     (\<not> raw_eq i i' \<and> (is_base_iter ri \<or> ne ri ri'))"

definition eq :: "Iterator \<Rightarrow> Iterator \<Rightarrow> bool" where
  "eq a b = (\<not> ne a b)"

text \<open>\<^verbatim>\<open>operator*\<close>: the tuple of the elements under the raw iterators, outer node first.\<close>

fun deref :: "'a MixedProductor \<Rightarrow> Iterator \<Rightarrow> 'a list option" where
  "deref (Base t) (BaseIter g) = Some []"
| "deref (Node c s f r) (NodeIter i b e ri cnt) =
     (if i < length c then
        (case deref r ri of None \<Rightarrow> None | Some xs \<Rightarrow> Some (c ! i # xs))
      else None)"

text \<open>
  The traversal of the tests, \<^verbatim>\<open>ResType v(std::begin(p), std::end(p))\<close>: while the cursor
  differs from the end cursor, append \<^verbatim>\<open>*it\<close> and apply \<^verbatim>\<open>++it\<close>. The result is \<open>None\<close>
  when a dereference is not defined or a loop does not return.
\<close>

partial_function (option) collect ::
  "'a MixedProductor \<times> Iterator \<Rightarrow> Iterator \<Rightarrow> 'a list list \<Rightarrow> 'a list list option" where
  "collect st lst acc =
     (if ne (snd st) lst then
        (case deref (fst st) (snd st) of
           None \<Rightarrow> None
         | Some t \<Rightarrow>
             (case operator_inc st of
                None \<Rightarrow> None
              | Some st' \<Rightarrow> collect st' lst (acc @ [t])))
      else Some acc)"

declare collect.simps [code]

definition traverse :: "'a list list \<Rightarrow> 'a list list option" where
  "traverse cs =
     (let p = mixed_product cs in collect (p, begin_it p) (end_it p) [])"

subsection \<open>Notions for the statements and the proofs\<close>

text \<open>The running total: what \<^verbatim>\<open>total_fakesize()\<close> returns when called without argument.\<close>

definition running_total :: "'a MixedProductor \<Rightarrow> nat" where
  "running_total p = fst (total_fakesize 0 p)"

text \<open>The owner chain with the total at its base replaced.\<close>

fun with_total :: "nat \<Rightarrow> 'a MixedProductor \<Rightarrow> 'a MixedProductor" where
  "with_total t (Base t0) = Base t"
| "with_total t (Node c s f r) = Node c s f (with_total t r)"

text \<open>
  An iterator chain belongs to an owner chain when both have the same number of nodes,
  which the C++ types guarantee.
\<close>

fun same_shape :: "'a MixedProductor \<Rightarrow> Iterator \<Rightarrow> bool" where
  "same_shape (Base t) (BaseIter g) = True"
| "same_shape (Node c s f r) (NodeIter i b e ri cnt) = same_shape r ri"
| "same_shape (Base t) (NodeIter i b e ri cnt) = False"
| "same_shape (Node c s f r) (BaseIter g) = False"

text \<open>The containers and padded lengths of a chain and the raw iterators of a cursor, outer node first.\<close>

fun containers :: "'a MixedProductor \<Rightarrow> 'a list list" where
  "containers (Base t) = []"
| "containers (Node c s f r) = c # containers r"

fun fakesizes :: "'a MixedProductor \<Rightarrow> nat list" where
  "fakesizes (Base t) = []"
| "fakesizes (Node c s f r) = f # fakesizes r"

fun iters :: "Iterator \<Rightarrow> nat list" where
  "iters (BaseIter g) = []"
| "iters (NodeIter i b e ri cnt) = i # iters ri"

text \<open>The least value from \<open>n\<close> on that is coprime to \<open>t\<close>.\<close>

definition next_coprime :: "nat \<Rightarrow> nat \<Rightarrow> nat" where
  "next_coprime n t = (LEAST m. n \<le> m \<and> coprime m t)"

text \<open>\<open>n\<close> calls of \<^verbatim>\<open>do_increment\<close> in a row.\<close>

fun raw_steps ::
  "nat \<Rightarrow> 'a MixedProductor \<times> Iterator \<Rightarrow> ('a MixedProductor \<times> Iterator) option" where
  "raw_steps 0 st = Some st"
| "raw_steps (Suc n) st =
     (case do_increment (fst st) (snd st) of
        None \<Rightarrow> None
      | Some res \<Rightarrow> raw_steps n (snd res))"

text \<open>
  The part of \<^verbatim>\<open>do_increment\<close> that a node runs on its own members, before it forwards
  the call to \<^verbatim>\<open>rest_iter\<close>: the flag it forces, its owner after a possible
  \<^verbatim>\<open>set_size\<close>, and its raw iterator and counter.
\<close>

definition node_part ::
  "'a MixedProductor \<Rightarrow> Iterator \<Rightarrow> (bool \<times> 'a MixedProductor \<times> nat \<times> nat) option" where
  "node_part P I =
     (let i1 = (if \<not> is_fake P I then iter I + 1 else iter I);
          cnt1 = counter I + 1
      in
      if raw_eq i1 (end_m I) then
        (case (if cnt1 > 0 \<and> fakesize_m P = 0 then set_size cnt1 P else Some P) of
           None \<Rightarrow> None
         | Some owner \<Rightarrow>
             if \<not> is_fake owner (NodeIter i1 (begin_m I) (end_m I) (rest_iter I) cnt1)
             then Some (False, owner, begin_m I, 0)
             else Some (True, owner, i1, cnt1))
      else Some (False, P, i1, cnt1))"

text \<open>
  The padded length that \<^verbatim>\<open>set_size\<close> computes from the observed length \<open>n\<close> and the
  running total \<open>t\<close>, products in which \<open>0\<close> stands for "no factor yet" (as in the running
  total), and the owner node after \<^verbatim>\<open>set_size(n)\<close> with \<open>n > 0\<close>.
\<close>

definition padded :: "nat \<Rightarrow> nat \<Rightarrow> nat" where
  "padded n t = (if t = 0 then n else next_coprime n t)"

definition tcomb :: "nat \<Rightarrow> nat \<Rightarrow> nat" where
  "tcomb a b = (if a = 0 then b else if b = 0 then a else a * b)"

definition discovered :: "'a list \<Rightarrow> nat \<Rightarrow> 'a MixedProductor \<Rightarrow> 'a MixedProductor" where
  "discovered c n r =
     Node c n (padded n (running_total r))
       (with_total (tcomb (padded n (running_total r)) (running_total r)) r)"

text \<open>Coprimality of two products in which \<open>0\<close> stands for "no factor yet".\<close>

definition copz :: "nat \<Rightarrow> nat \<Rightarrow> bool" where
  "copz a b = (a = 0 \<or> b = 0 \<or> coprime a b)"

text \<open>The product of the padded lengths that a chain has discovered.\<close>

fun fprod :: "'a MixedProductor \<Rightarrow> nat" where
  "fprod (Base t) = 0"
| "fprod (Node c s f r) = tcomb f (fprod r)"

text \<open>Every discovered padded length is coprime to the product of those of the inner nodes.\<close>

fun cop :: "'a MixedProductor \<Rightarrow> bool" where
  "cop (Base t) = True"
| "cop (Node c s f r) = (copz f (fprod r) \<and> cop r)"

text \<open>
  The invariant of the running total of a chain whose outer nodes have discovered padded
  lengths with product \<open>m\<close>.
\<close>

definition total_inv :: "nat \<Rightarrow> 'a MixedProductor \<Rightarrow> bool" where
  "total_inv m p = (running_total p = tcomb m (fprod p) \<and> copz m (fprod p) \<and> cop p)"

text \<open>
  The invariant of a node and its cursor after \<open>g\<close> calls of \<^verbatim>\<open>do_increment\<close> over a
  non-empty container: before the node has discovered its size it has walked \<open>g\<close>
  elements and has not reached the end; afterwards it counts modulo its padded length,
  and its raw iterator rests at the end through the padding positions.
\<close>

definition node_inv ::
  "nat \<Rightarrow> 'a list \<Rightarrow> nat \<Rightarrow> nat \<Rightarrow> nat \<Rightarrow> nat \<Rightarrow> nat \<Rightarrow> nat \<Rightarrow> bool" where
  "node_inv g c s f i b e cnt =
     (c \<noteq> [] \<and> b = 0 \<and> e = length c
      \<and> (if f = 0 then s = 0 \<and> cnt = g \<and> i = g \<and> g < length c
          else s = length c \<and> s \<le> f \<and> cnt = g mod f \<and> i = min cnt s))"

fun cursor_inv :: "nat \<Rightarrow> 'a MixedProductor \<Rightarrow> Iterator \<Rightarrow> bool" where
  "cursor_inv g (Base t) (BaseIter g') = (g' = g)"
| "cursor_inv g (Node c s f r) (NodeIter i b e ri cnt) =
     (node_inv g c s f i b e cnt \<and> cursor_inv g r ri)"
| "cursor_inv g (Base t) (NodeIter i b e ri cnt) = False"
| "cursor_inv g (Node c s f r) (BaseIter g') = False"

text \<open>Some node of the chain is in its padding region.\<close>

fun any_fake :: "'a MixedProductor \<Rightarrow> Iterator \<Rightarrow> bool" where
  "any_fake (Base t) (BaseIter g) = False"
| "any_fake (Node c s f r) (NodeIter i b e ri cnt) =
     (is_fake (Node c s f r) (NodeIter i b e ri cnt) \<or> any_fake r ri)"
| "any_fake (Base t) (NodeIter i b e ri cnt) = False"
| "any_fake (Node c s f r) (BaseIter g) = False"

text \<open>
  The second chain has the containers of the first and keeps the true and padded length
  of every node that the first has discovered.
\<close>

fun stable :: "'a MixedProductor \<Rightarrow> 'a MixedProductor \<Rightarrow> bool" where
  "stable (Base t) (Base t') = True"
| "stable (Node c s f r) (Node c' s' f' r') =
     (c' = c \<and> (f \<noteq> 0 \<longrightarrow> s' = s \<and> f' = f) \<and> stable r r')"
| "stable (Base t) (Node c' s' f' r') = False"
| "stable (Node c s f r) (Base t') = False"

text \<open>
  The generator over the containers \<open>cs\<close> with the cursor that \<^verbatim>\<open>begin()\<close> returns, and the
  pair after \<open>g\<close> calls of \<^verbatim>\<open>do_increment\<close>.
\<close>

definition start :: "'a list list \<Rightarrow> 'a MixedProductor \<times> Iterator" where
  "start cs = (mixed_product cs, begin_it (mixed_product cs))"

definition raw_state :: "'a list list \<Rightarrow> nat \<Rightarrow> 'a MixedProductor \<times> Iterator" where
  "raw_state cs g = the (raw_steps g (start cs))"

text \<open>
  After as many steps as the containers have elements every size is discovered; the
  owner chain at that time holds the final padded lengths, and its running total is the
  length of the cycle.
\<close>

definition final_owner :: "'a list list \<Rightarrow> 'a MixedProductor" where
  "final_owner cs = fst (raw_state cs (sum_list (map length cs)))"

definition cycle :: "'a list list \<Rightarrow> nat" where
  "cycle cs = running_total (final_owner cs)"

text \<open>A chain all of whose nodes have discovered their size.\<close>

fun settled :: "'a MixedProductor \<Rightarrow> bool" where
  "settled (Base t) = True"
| "settled (Node c s f r) = (c \<noteq> [] \<and> f \<noteq> 0 \<and> s = length c \<and> s \<le> f \<and> settled r)"

text \<open>
  For a settled chain: step \<open>g\<close> of the cycle is real when no node is at a padding
  position, and then denotes the tuple of the elements at the nodes' positions.
\<close>

fun real_at :: "nat \<Rightarrow> 'a MixedProductor \<Rightarrow> bool" where
  "real_at g (Base t) = True"
| "real_at g (Node c s f r) = (g mod f < length c \<and> real_at g r)"

fun tuple_at :: "nat \<Rightarrow> 'a MixedProductor \<Rightarrow> 'a list" where
  "tuple_at g (Base t) = []"
| "tuple_at g (Node c s f r) = c ! (g mod f) # tuple_at g r"

text \<open>Each modulus is coprime to the product of the later ones.\<close>

fun crt_ok :: "nat list \<Rightarrow> bool" where
  "crt_ok [] = True"
| "crt_ok (f # fs) = (coprime f (prod_list fs) \<and> crt_ok fs)"

text \<open>
  The cursor of the traversal at step \<open>g\<close> of the cycle: the raw state before the cycle
  is complete, the end cursor afterwards.
\<close>

definition cursor_at :: "'a list list \<Rightarrow> nat \<Rightarrow> 'a MixedProductor \<times> Iterator" where
  "cursor_at cs g =
     (if g = cycle cs then (fst (raw_state cs g), end_it (mixed_product cs))
      else raw_state cs g)"

text \<open>The steps of the cycle from \<open>g\<close> on that are real, and their tuples.\<close>

definition real_steps :: "'a list list \<Rightarrow> nat \<Rightarrow> nat list" where
  "real_steps cs g = filter (\<lambda>j. real_at j (final_owner cs)) [g..<cycle cs]"

text \<open>The positions of the nodes at step \<open>g\<close>: the residues of \<open>g\<close> modulo the padded lengths.\<close>

definition residues :: "nat list \<Rightarrow> nat \<Rightarrow> nat list" where
  "residues fs g = map (\<lambda>f. g mod f) fs"





text \<open>
  What one call of \<^verbatim>\<open>do_increment\<close> changes in the owner chain. The nodes are visited
  outer node first with the running total \<open>t\<close> as it stands before the node. A node that
  discovers its size in this call (padded length \<open>0\<close> before, not \<open>0\<close> after) gets the
  length of its container as true length and a padded length that is not smaller; the
  padded length equals the true length when \<open>t\<close> is \<open>0\<close> and has \<^verbatim>\<open>gcd\<close> \<open>1\<close> with \<open>t\<close>
  otherwise; the running total becomes the padded length when \<open>t\<close> is \<open>0\<close> and the
  padded length times \<open>t\<close> otherwise. Every other node keeps its true and padded length
  and leaves the running total as it is. \<open>t'\<close> is the running total after the last node.
\<close>

fun discovery_events ::
  "nat \<Rightarrow> 'a MixedProductor \<Rightarrow> 'a MixedProductor \<Rightarrow> nat \<Rightarrow> bool" where
  "discovery_events t (Base t0) (Base t1) t' = (t' = t)"
| "discovery_events t (Node c s f r) (Node c' s' f' r') t' =
     (c' = c \<and>
      (if f = 0 \<and> f' \<noteq> 0 then
         s' = length c \<and> s' \<le> f'
         \<and> (if t = 0 then f' = s' else gcd_mp f' t = 1)
         \<and> discovery_events (if t = 0 then f' else f' * t) r r' t'
       else s' = s \<and> f' = f \<and> discovery_events t r r' t'))"
| "discovery_events t (Base t0) (Node c' s' f' r') t' = False"
| "discovery_events t (Node c s f r) (Base t1) t' = False"

section \<open>Basic facts\<close>

subsection \<open>The running total\<close>

lemma total_fakesize_eq:
  "total_fakesize fsz p =
     (if fsz \<noteq> 0 then (fsz, with_total fsz p) else (running_total p, p))"
  unfolding running_total_def
  by (induction p) (simp_all add: Let_def case_prod_beta)

lemma running_total_simps [simp]:
  "running_total (Base t) = t"
  "running_total (Node c s f r) = running_total r"
  by (simp_all add: running_total_def split: prod.splits)

lemma running_total_with_total [simp]: "running_total (with_total t p) = t"
  by (induction p) simp_all

lemma with_total_running_total [simp]: "with_total (running_total p) p = p"
  by (induction p) simp_all

lemma with_total_twice [simp]: "with_total t (with_total u p) = with_total t p"
  by (induction p) simp_all

lemma views_with_total [simp]:
  "containers (with_total t p) = containers p"
  "fakesizes (with_total t p) = fakesizes p"
  by (induction p) simp_all

lemma same_shape_with_total [simp]: "same_shape (with_total t p) it = same_shape p it"
  by (induction p it rule: same_shape.induct) simp_all

subsection \<open>The greatest common divisor and the coprime search\<close>

lemma gcd_mp_gcd: "gcd_mp a b = gcd a b"
proof (induction a b rule: gcd_mp.induct)
  case (1 a b)
  show ?case
  proof (cases "b = 0")
    case True
    then show ?thesis by (simp add: gcd_mp.simps)
  next
    case False
    then have "gcd_mp a b = gcd b (a mod b)"
      using 1 by (simp add: gcd_mp.simps [of a b])
    then show ?thesis
      by (simp add: gcd_red_nat [of a b])
  qed
qed

lemma gcd_mp_one_iff: "gcd_mp a b = 1 \<longleftrightarrow> coprime a b"
  by (simp add: gcd_mp_gcd coprime_iff_gcd_eq_1)

lemma gcd_mp_Suc_0_iff: "gcd_mp a b = Suc 0 \<longleftrightarrow> coprime a b"
  using gcd_mp_one_iff [of a b] by simp

lemma coprime_exists_above:
  assumes "0 < (t::nat)"
  shows "\<exists>m. n \<le> m \<and> coprime m t"
proof
  have "n \<le> n * t" using assms by (cases t) simp_all
  then have "n \<le> n * t + 1" by linarith
  moreover have "coprime (n * t + 1) t"
    by (metis coprime_commute coprime_add_one_right coprime_mult_left_iff)
  ultimately show "n \<le> n * t + 1 \<and> coprime (n * t + 1) t" by simp
qed

lemma next_coprime_props:
  assumes "0 < t"
  shows "n \<le> next_coprime n t" and "coprime (next_coprime n t) t"
    and "\<And>k. n \<le> k \<Longrightarrow> k < next_coprime n t \<Longrightarrow> \<not> coprime k t"
proof -
  obtain m where m: "n \<le> m \<and> coprime m t"
    using coprime_exists_above [OF assms] by blast
  have "n \<le> next_coprime n t \<and> coprime (next_coprime n t) t"
    unfolding next_coprime_def by (rule LeastI [of _ m]) (rule m)
  then show "n \<le> next_coprime n t" and "coprime (next_coprime n t) t" by simp_all
  fix k assume "n \<le> k" "k < next_coprime n t"
  then show "\<not> coprime k t"
    unfolding next_coprime_def using not_less_Least by blast
qed

lemma set_size_loop_search:
  "coprime (n + d) t \<Longrightarrow> (\<And>k. n \<le> k \<Longrightarrow> k < n + d \<Longrightarrow> \<not> coprime k t)
     \<Longrightarrow> set_size_loop n t = Some (n + d)"
proof (induction d arbitrary: n)
  case 0
  then show ?case by (simp add: set_size_loop.simps [of n t] gcd_mp_Suc_0_iff)
next
  case (Suc d)
  have "\<not> coprime n t" using Suc.prems(2) [of n] by simp
  then have "set_size_loop n t = set_size_loop (Suc n) t"
    by (simp add: set_size_loop.simps [of n t] gcd_mp_Suc_0_iff)
  also have "\<dots> = Some (Suc n + d)"
    using Suc.prems by (intro Suc.IH) simp_all
  finally show ?case by simp
qed

lemma set_size_loop_eq:
  assumes "0 < t"
  shows "set_size_loop n t = Some (next_coprime n t)"
proof -
  obtain d where d: "next_coprime n t = n + d"
    using next_coprime_props(1) [OF assms, of n] le_Suc_ex by blast
  show ?thesis
    using set_size_loop_search [of n d t] next_coprime_props(2,3) [OF assms, of n]
    by (simp add: d)
qed

lemma next_coprime_pos: "0 < t \<Longrightarrow> 0 < n \<Longrightarrow> 0 < next_coprime n t"
  using next_coprime_props(1) [of t n] by simp

subsection \<open>\<^verbatim>\<open>set_size\<close> in closed form\<close>

lemma set_size_eq:
  "set_size n (Node c s f r) =
     Some (if n = 0 then Node c s f r
           else if running_total r = 0 then Node c n n (with_total n r)
           else Node c n (next_coprime n (running_total r))
                  (with_total (next_coprime n (running_total r) * running_total r) r))"
proof -
  have pos: "next_coprime n (running_total r) * running_total r \<noteq> 0"
    if "n \<noteq> 0" "running_total r \<noteq> 0"
    using that next_coprime_pos [of "running_total r" n] by simp
  show ?thesis
    using pos
    by (simp add: total_fakesize_eq Let_def set_size_loop_eq)
qed

declare set_size.simps [simp del]

subsection \<open>\<^verbatim>\<open>do_increment\<close>, node by node\<close>

lemma do_increment_Node:
  "do_increment (Node c s f r) (NodeIter i b e ri cnt) =
     (case node_part (Node c s f r) (NodeIter i b e ri cnt) of
        None \<Rightarrow> None
      | Some (fl, owner, i', cnt') \<Rightarrow>
          (case do_increment (rest_products owner) ri of
             None \<Rightarrow> None
           | Some (fk, r', ri') \<Rightarrow>
               Some (fl \<or> fk, Node (container owner) (size_m owner) (fakesize_m owner) r',
                     NodeIter i' b e ri' cnt')))"
  by (simp add: node_part_def Let_def set_size_eq split: option.splits)

lemma padded_ge: "n \<le> padded n t"
  using next_coprime_props(1) [of t n] by (simp add: padded_def)

lemma padded_pos: "0 < n \<Longrightarrow> 0 < padded n t"
  using padded_ge [of n t] by simp

lemma set_size_discovered:
  "n \<noteq> 0 \<Longrightarrow> set_size n (Node c s f r) = Some (discovered c n r)"
  using next_coprime_pos [of "running_total r" n]
  by (cases "running_total r = 0")
    (simp_all add: set_size_eq discovered_def padded_def tcomb_def)

lemma discovered_sel [simp]:
  "container (discovered c n r) = c"
  "size_m (discovered c n r) = n"
  "fakesize_m (discovered c n r) = padded n (running_total r)"
  "rest_products (discovered c n r) =
     with_total (tcomb (padded n (running_total r)) (running_total r)) r"
  by (simp_all add: discovered_def)

lemma running_total_discovered [simp]:
  "running_total (discovered c n r) = tcomb (padded n (running_total r)) (running_total r)"
  by (simp add: discovered_def)

lemma node_part_undiscovered:
  assumes "f = 0"
  shows "node_part (Node c s f r) (NodeIter i b e ri cnt) =
    (if i + 1 = e then
       (if cnt + 1 < padded (cnt + 1) (running_total r)
        then Some (True, discovered c (cnt + 1) r, e, cnt + 1)
        else Some (False, discovered c (cnt + 1) r, b, 0))
     else Some (False, Node c s f r, i + 1, cnt + 1))"
proof -
  have "is_fake (discovered c (cnt + 1) r) (NodeIter e b e ri (cnt + 1))
      \<longleftrightarrow> cnt + 1 < padded (cnt + 1) (running_total r)"
    using padded_pos [of "cnt + 1" "running_total r"]
    by (simp add: discovered_def)
  then show ?thesis
    using assms by (simp add: node_part_def Let_def raw_eq_def set_size_discovered)
qed

lemma node_part_discovered:
  assumes "f \<noteq> 0"
  shows "node_part (Node c s f r) (NodeIter i b e ri cnt) =
    (if (if s \<le> cnt \<and> cnt < f then i else i + 1) = e then
       (if s \<le> cnt + 1 \<and> cnt + 1 < f
        then Some (True, Node c s f r, e, cnt + 1)
        else Some (False, Node c s f r, b, 0))
     else Some (False, Node c s f r, if s \<le> cnt \<and> cnt < f then i else i + 1, cnt + 1))"
  using assms by (simp add: node_part_def Let_def raw_eq_def)

lemma node_part_Some:
  "\<exists>fl owner i' cnt'.
     node_part (Node c s f r) (NodeIter i b e ri cnt) = Some (fl, owner, i', cnt')"
  by (cases "f = 0") (auto simp add: node_part_undiscovered node_part_discovered)

lemma node_part_owner:
  assumes "node_part (Node c s f r) (NodeIter i b e ri cnt) = Some (fl, owner, i', cnt')"
  shows "owner = (if f = 0 \<and> i + 1 = e then discovered c (cnt + 1) r else Node c s f r)"
proof (cases "f = 0")
  case True
  then show ?thesis
    using assms by (auto simp add: node_part_undiscovered split: if_splits)
next
  case False
  then show ?thesis
    using assms by (auto simp add: node_part_discovered split: if_splits)
qed

declare do_increment.simps(2) [simp del]

subsection \<open>Shape, totality and the global counter of \<^verbatim>\<open>do_increment\<close>\<close>

lemma same_shape_begin_it [simp]: "same_shape p (begin_it p)"
  by (induction p) simp_all

lemma same_shape_end_it [simp]: "same_shape p (end_it p)"
  by (induction p) simp_all

lemma node_part_rest:
  assumes "node_part (Node c s f r) (NodeIter i b e ri cnt) = Some (fl, owner, i', cnt')"
  shows "rest_products owner = with_total (running_total owner) r"
    and "container owner = c"
  by (simp_all add: node_part_owner [OF assms])

lemma do_increment_total:
  "same_shape p it \<Longrightarrow>
     \<exists>fk p' it'. do_increment p it = Some (fk, p', it') \<and> same_shape p' it'
        \<and> global_counter it' = global_counter it + 1 \<and> containers p' = containers p"
proof (induction it arbitrary: p)
  case (BaseIter g)
  then show ?case by (cases p) auto
next
  case (NodeIter i b e ri cnt)
  from NodeIter.prems obtain c s f r where p: "p = Node c s f r" and sh: "same_shape r ri"
    by (cases p) simp_all
  obtain fl owner i' cnt' where
    np: "node_part (Node c s f r) (NodeIter i b e ri cnt) = Some (fl, owner, i', cnt')"
    using node_part_Some by blast
  have "same_shape (rest_products owner) ri"
    using node_part_rest(1) [OF np] sh by simp
  from NodeIter.IH [OF this] obtain fk r' ri' where
    rec: "do_increment (rest_products owner) ri = Some (fk, r', ri')"
      "same_shape r' ri'" "global_counter ri' = global_counter ri + 1"
      "containers r' = containers (rest_products owner)"
    by blast
  have "containers (rest_products owner) = containers r"
    using node_part_rest(1) [OF np] by simp
  then show ?case
    using rec node_part_rest(2) [OF np]
    by (simp add: p do_increment_Node np)
qed

lemma raw_steps_total:
  "same_shape (fst st) (snd st) \<Longrightarrow>
     \<exists>st'. raw_steps n st = Some st' \<and> same_shape (fst st') (snd st')
       \<and> global_counter (snd st') = global_counter (snd st) + n"
proof (induction n arbitrary: st)
  case 0
  then show ?case by simp
next
  case (Suc n)
  from do_increment_total [OF Suc.prems] obtain fk p' it' where
    d: "do_increment (fst st) (snd st) = Some (fk, p', it')" "same_shape p' it'"
      "global_counter it' = global_counter (snd st) + 1"
    by blast
  from Suc.IH [of "(p', it')"] d(2) obtain st' where
    "raw_steps n (p', it') = Some st'" "same_shape (fst st') (snd st')"
    "global_counter (snd st') = global_counter it' + n"
    by auto
  then show ?case using d by simp
qed

lemma global_counter_begin_it [simp]: "global_counter (begin_it p) = 0"
  by (induction p) simp_all

lemma global_counter_end_it [simp]: "global_counter (end_it p) = 0"
  by (induction p) simp_all

subsection \<open>Comparison of cursors\<close>

lemma length_iters: "same_shape p it \<Longrightarrow> length (iters it) = length (containers p)"
  by (induction p it rule: same_shape.induct) simp_all

lemma ne_list_all2:
  "same_shape p a \<Longrightarrow> same_shape p b \<Longrightarrow>
     ne a b \<longleftrightarrow> iters a \<noteq> [] \<and> list_all2 (\<lambda>x y. x \<noteq> y) (iters a) (iters b)"
proof (induction a arbitrary: p b)
  case (BaseIter g)
  then show ?case by (cases p; cases b) simp_all
next
  case (NodeIter i b0 e ri cnt)
  from NodeIter.prems obtain c s f r i' b' e' ri' cnt' where
    p: "p = Node c s f r" and b: "b = NodeIter i' b' e' ri' cnt'"
    and sh: "same_shape r ri" "same_shape r ri'"
    by (cases p; cases b) simp_all
  show ?case
  proof (cases ri)
    case (BaseIter g)
    then have "ri' = BaseIter (base_counter ri')"
      using sh by (cases r; cases ri') simp_all
    then have "iters ri' = []" by (metis iters.simps(1))
    then show ?thesis using BaseIter by (simp add: b raw_eq_def)
  next
    case N: (NodeIter i2 b2 e2 ri2 cnt2)
    have "ne ri ri' \<longleftrightarrow> list_all2 (\<lambda>x y. x \<noteq> y) (iters ri) (iters ri')"
      using NodeIter.IH [OF sh] N by simp
    then show ?thesis
      using N by (simp add: b raw_eq_def)
  qed
qed

lemma ne_iff:
  assumes "same_shape p a" "same_shape p b"
  shows "ne a b \<longleftrightarrow>
    iters a \<noteq> [] \<and> (\<forall>k<length (iters a). iters a ! k \<noteq> iters b ! k)"
proof -
  have "length (iters a) = length (iters b)"
    using assms by (simp add: length_iters)
  then show ?thesis
    unfolding ne_list_all2 [OF assms] by (simp add: list_all2_conv_all_nth)
qed

lemma containers_mixed_product [simp]: "containers (mixed_product cs) = cs"
  by (induction cs) simp_all

lemma iters_begin_it [simp]: "iters (begin_it p) = replicate (length (containers p)) 0"
  by (induction p) simp_all

lemma iters_end_it [simp]: "iters (end_it p) = map length (containers p)"
  by (induction p) simp_all

lemma ne_begin_end:
  "ne (begin_it p) (end_it p) \<longleftrightarrow> containers p \<noteq> [] \<and> [] \<notin> set (containers p)"
proof -
  have "ne (begin_it p) (end_it p) \<longleftrightarrow>
      containers p \<noteq> [] \<and> (\<forall>k<length (containers p). 0 \<noteq> length (containers p ! k))"
    using ne_iff [of p "begin_it p" "end_it p"] by auto
  also have "(\<forall>k<length (containers p). 0 \<noteq> length (containers p ! k))
      \<longleftrightarrow> [] \<notin> set (containers p)"
    by (metis in_set_conv_nth length_0_conv)
  finally show ?thesis .
qed

subsection \<open>The running total is the product of pairwise coprime padded lengths\<close>

lemma tcomb_simps [simp]: "tcomb 0 a = a" "tcomb a 0 = a"
  by (simp_all add: tcomb_def)

lemma tcomb_eq_0_iff [simp]: "tcomb a b = 0 \<longleftrightarrow> a = 0 \<and> b = 0"
  by (simp add: tcomb_def)

lemma tcomb_commute: "tcomb a b = tcomb b a"
  by (simp add: tcomb_def mult.commute)

lemma tcomb_assoc: "tcomb (tcomb a b) c = tcomb a (tcomb b c)"
  by (simp add: tcomb_def)

lemma copz_simps [simp]: "copz 0 a" "copz a 0"
  by (simp_all add: copz_def)

lemma copz_commute: "copz a b = copz b a"
  by (auto simp add: copz_def coprime_commute)

lemma copz_tcomb_left: "copz (tcomb a b) c \<longleftrightarrow> copz a c \<and> copz b c"
  by (auto simp add: copz_def tcomb_def)

lemma copz_tcomb_right: "copz a (tcomb b c) \<longleftrightarrow> copz a b \<and> copz a c"
  by (auto simp add: copz_def tcomb_def)

lemma copz_padded: "0 < n \<Longrightarrow> copz (padded n t) t"
  using next_coprime_props(2) [of t n] by (cases "t = 0") (simp_all add: padded_def copz_def)

lemma fprod_with_total [simp]: "fprod (with_total t p) = fprod p"
  by (induction p) simp_all

lemma cop_with_total [simp]: "cop (with_total t p) = cop p"
  by (induction p) simp_all

lemma node_part_total_inv:
  assumes np: "node_part (Node c s f r) (NodeIter i b e ri cnt) = Some (fl, owner, i', cnt')"
    and inv: "total_inv m (Node c s f r)"
  shows "total_inv (tcomb m (fakesize_m owner)) (rest_products owner)"
    and "copz m (fakesize_m owner)"
proof -
  let ?T = "running_total r"
  have T: "?T = tcomb m (tcomb f (fprod r))" and c1: "copz m (tcomb f (fprod r))"
    and c2: "copz f (fprod r)" and c3: "cop r"
    using inv by (simp_all add: total_inv_def)
  have "total_inv (tcomb m (fakesize_m owner)) (rest_products owner)
      \<and> copz m (fakesize_m owner)"
  proof (cases "f = 0 \<and> i + 1 = e")
    case False
    then have "owner = Node c s f r"
      using node_part_owner [OF np] by auto
    then show ?thesis
      using T c1 c2 c3
      by (simp add: total_inv_def tcomb_assoc copz_tcomb_left copz_tcomb_right)
  next
    case True
    define nc where "nc = padded (Suc cnt) ?T"
    have own: "owner = discovered c (Suc cnt) r"
      using node_part_owner [OF np] True by simp
    have cz: "copz nc ?T"
      unfolding nc_def by (rule copz_padded) simp
    then have cz': "copz nc m" "copz nc (fprod r)"
      using T True by (simp_all add: copz_tcomb_right)
    have "tcomb nc ?T = tcomb (tcomb m nc) (fprod r)"
      using T True by (simp add: tcomb_assoc [symmetric] tcomb_commute [of nc m])
    then show ?thesis
      using c1 c3 cz' True
      by (simp add: own nc_def [symmetric] total_inv_def copz_tcomb_left
          copz_tcomb_right copz_commute [of nc])
  qed
  then show "total_inv (tcomb m (fakesize_m owner)) (rest_products owner)"
    and "copz m (fakesize_m owner)" by simp_all
qed

lemma do_increment_total_inv:
  "same_shape p it \<Longrightarrow> total_inv m p \<Longrightarrow> do_increment p it = Some (fk, p', it')
     \<Longrightarrow> total_inv m p'"
proof (induction it arbitrary: p m fk p' it')
  case (BaseIter g)
  then show ?case by (cases p) auto
next
  case (NodeIter i b e ri cnt)
  from NodeIter.prems(1) obtain c s f r where p: "p = Node c s f r" and sh: "same_shape r ri"
    by (cases p) simp_all
  obtain fl owner i1 cnt1 where
    np: "node_part (Node c s f r) (NodeIter i b e ri cnt) = Some (fl, owner, i1, cnt1)"
    using node_part_Some by blast
  have sh': "same_shape (rest_products owner) ri"
    using node_part_rest(1) [OF np] sh by simp
  obtain fk0 r' ri' where
    rec: "do_increment (rest_products owner) ri = Some (fk0, r', ri')"
    using do_increment_total [OF sh'] by blast
  have p': "p' = Node c (size_m owner) (fakesize_m owner) r'"
    using NodeIter.prems(3) rec node_part_rest(2) [OF np]
    by (simp add: p do_increment_Node np)
  have ti: "total_inv (tcomb m (fakesize_m owner)) (rest_products owner)"
    and cz: "copz m (fakesize_m owner)"
    using node_part_total_inv [OF np] NodeIter.prems(2) by (simp_all add: p)
  have "total_inv (tcomb m (fakesize_m owner)) r'"
    by (rule NodeIter.IH [OF sh' ti rec])
  then show ?case
    using cz
    by (simp add: p' total_inv_def tcomb_assoc copz_tcomb_left copz_tcomb_right)
qed

subsection \<open>The cursor invariant\<close>

lemma cursor_inv_same_shape: "cursor_inv g p it \<Longrightarrow> same_shape p it"
  by (induction p it rule: same_shape.induct) simp_all

lemma cursor_inv_with_total [simp]: "cursor_inv g (with_total t p) it = cursor_inv g p it"
  by (induction p it rule: same_shape.induct) simp_all

lemma any_fake_with_total [simp]: "any_fake (with_total t p) it = any_fake p it"
  by (induction p it rule: same_shape.induct) simp_all

lemma stable_refl [simp]: "stable p p"
  by (induction p) simp_all

lemma stable_with_total_left [simp]: "stable (with_total t p) q = stable p q"
  by (induction p q rule: stable.induct) simp_all

lemma stable_with_total_right [simp]: "stable p (with_total t q) = stable p q"
  by (induction p q rule: stable.induct) simp_all

lemma stable_trans: "stable p q \<Longrightarrow> stable q r \<Longrightarrow> stable p r"
proof (induction p arbitrary: q r)
  case (Base t)
  then show ?case by (cases q; cases r) simp_all
next
  case (Node c s f p)
  from Node.prems obtain c' s' f' q' where q: "q = Node c' s' f' q'"
    by (cases q) simp_all
  from Node.prems q obtain c'' s'' f'' r' where r: "r = Node c'' s'' f'' r'"
    by (cases r) simp_all
  have "stable p r'"
    using Node.IH [of q' r'] Node.prems by (simp add: q r)
  then show ?case
    using Node.prems by (auto simp add: q r)
qed

lemma stable_containers: "stable p q \<Longrightarrow> containers q = containers p"
  by (induction p q rule: stable.induct) simp_all

lemma node_part_node_inv_undiscovered:
  assumes np: "node_part (Node c 0 0 r) (NodeIter g 0 (length c) ri g) = Some (fl, owner, i', cnt')"
    and c: "c \<noteq> []" and g: "g < length c"
  shows "node_inv (Suc g) c (size_m owner) (fakesize_m owner) i' 0 (length c) cnt'
    \<and> (fl \<longleftrightarrow> fakesize_m owner \<noteq> 0 \<and> size_m owner \<le> cnt' \<and> cnt' < fakesize_m owner)"
proof (cases "Suc g = length c")
  case False
  have "node_part (Node c 0 0 r) (NodeIter g 0 (length c) ri g)
      = Some (False, Node c 0 0 r, Suc g, Suc g)"
    using False by (simp add: node_part_undiscovered)
  with np have "fl = False" "owner = Node c 0 0 r" "i' = Suc g" "cnt' = Suc g"
    by simp_all
  moreover have "Suc g < length c" using g False by simp
  ultimately show ?thesis
    using c by (simp add: node_inv_def)
next
  case True
  define nc where "nc = padded (Suc g) (running_total r)"
  have nc: "Suc g \<le> nc" unfolding nc_def by (rule padded_ge)
  have sel: "size_m (discovered c (Suc g) r) = Suc g"
    "fakesize_m (discovered c (Suc g) r) = nc"
    by (simp_all add: nc_def)
  show ?thesis
  proof (cases "Suc g < nc")
    case lt: True
    have npe: "node_part (Node c 0 0 r) (NodeIter g 0 (length c) ri g)
        = Some (True, discovered c (Suc g) r, length c, Suc g)"
      using True lt by (simp add: node_part_undiscovered nc_def)
    from np [unfolded npe] have r: "fl = True" "owner = discovered c (Suc g) r" "i' = length c" "cnt' = Suc g"
      by auto
    show ?thesis
      unfolding r sel using c lt True [symmetric] by (simp add: node_inv_def)
  next
    case False
    then have eq: "nc = Suc g" using nc by simp
    have npe: "node_part (Node c 0 0 r) (NodeIter g 0 (length c) ri g)
        = Some (False, discovered c (Suc g) r, 0, 0)"
      using True False by (simp add: node_part_undiscovered nc_def)
    from np [unfolded npe] have r: "fl = False" "owner = discovered c (Suc g) r" "i' = 0" "cnt' = 0"
      by auto
    show ?thesis
      unfolding r sel eq using c True [symmetric] by (simp add: node_inv_def)
  qed
qed

lemma node_part_node_inv_discovered:
  assumes np: "node_part (Node c (length c) f r)
      (NodeIter (min (g mod f) (length c)) 0 (length c) ri (g mod f)) = Some (fl, owner, i', cnt')"
    and c: "c \<noteq> []" and f: "f \<noteq> 0" "length c \<le> f"
  shows "node_inv (Suc g) c (size_m owner) (fakesize_m owner) i' 0 (length c) cnt'
    \<and> (fl \<longleftrightarrow> fakesize_m owner \<noteq> 0 \<and> size_m owner \<le> cnt' \<and> cnt' < fakesize_m owner)
    \<and> size_m owner = length c \<and> fakesize_m owner = f"
proof -
  define k where "k = g mod f"
  define l where "l = length c"
  have lt: "k < f" using f by (simp add: k_def)
  have l: "0 < l" "l \<le> f" using c f by (simp_all add: l_def)
  have suc: "Suc g mod f = (if Suc k = f then 0 else Suc k)"
    by (simp add: mod_Suc k_def)
  have np': "node_part (Node c l f r) (NodeIter (min k l) 0 l ri k) = Some (fl, owner, i', cnt')"
    using np by (simp add: k_def l_def)
  have own: "owner = Node c l f r"
    using node_part_owner [OF np'] f by simp
  have "node_inv (Suc g) c l f i' 0 l cnt' \<longleftrightarrow>
      cnt' = Suc g mod f \<and> i' = min cnt' l"
    unfolding node_inv_def if_not_P [OF f(1)] using c f(2) by (simp add: l_def)
  then have goal: "node_inv (Suc g) c l f i' 0 l cnt' \<longleftrightarrow>
      cnt' = (if Suc k = f then 0 else Suc k) \<and> i' = min cnt' l"
    by (simp only: suc)
  consider (fake_more) "l \<le> k" "Suc k < f" | (fake_wrap) "l \<le> k" "Suc k = f"
    | (real_more) "Suc k < l" | (real_end_fake) "Suc k = l" "Suc k < f"
    | (real_end_wrap) "Suc k = l" "Suc k = f"
    using lt by linarith
  then have "cnt' = (if Suc k = f then 0 else Suc k) \<and> i' = min cnt' l
      \<and> (fl \<longleftrightarrow> l \<le> cnt' \<and> cnt' < f)"
  proof cases
    case fake_more
    then have npe: "node_part (Node c l f r) (NodeIter (min k l) 0 l ri k)
        = Some (True, Node c l f r, l, Suc k)"
      using f lt by (simp add: node_part_discovered)
    from np' [unfolded npe] have "fl = True" "i' = l" "cnt' = Suc k" by auto
    then show ?thesis using fake_more by simp
  next
    case fake_wrap
    then have npe: "node_part (Node c l f r) (NodeIter (min k l) 0 l ri k)
        = Some (False, Node c l f r, 0, 0)"
      using f lt by (simp add: node_part_discovered)
    from np' [unfolded npe] have "fl = False" "i' = 0" "cnt' = 0" by auto
    then show ?thesis using fake_wrap l by simp
  next
    case real_more
    then have npe: "node_part (Node c l f r) (NodeIter (min k l) 0 l ri k)
        = Some (False, Node c l f r, Suc k, Suc k)"
      using f lt by (simp add: node_part_discovered)
    from np' [unfolded npe] have "fl = False" "i' = Suc k" "cnt' = Suc k" by auto
    then show ?thesis using real_more l by simp
  next
    case real_end_fake
    then have npe: "node_part (Node c l f r) (NodeIter (min k l) 0 l ri k)
        = Some (True, Node c l f r, l, Suc k)"
      using f lt by (simp add: node_part_discovered)
    from np' [unfolded npe] have "fl = True" "i' = l" "cnt' = Suc k" by auto
    then show ?thesis using real_end_fake by simp
  next
    case real_end_wrap
    then have npe: "node_part (Node c l f r) (NodeIter (min k l) 0 l ri k)
        = Some (False, Node c l f r, 0, 0)"
      using f lt by (simp add: node_part_discovered)
    from np' [unfolded npe] have "fl = False" "i' = 0" "cnt' = 0" by auto
    then show ?thesis using real_end_wrap l by simp
  qed
  then have "node_inv (Suc g) c l f i' 0 l cnt' \<and> (fl \<longleftrightarrow> f \<noteq> 0 \<and> l \<le> cnt' \<and> cnt' < f)"
    using goal f(1) by blast
  then show ?thesis
    by (simp add: own l_def)
qed

lemma node_part_node_inv:
  assumes np: "node_part (Node c s f r) (NodeIter i b e ri cnt) = Some (fl, owner, i', cnt')"
    and ni: "node_inv g c s f i b e cnt"
  shows "node_inv (Suc g) c (size_m owner) (fakesize_m owner) i' b e cnt'"
    and "fl \<longleftrightarrow> fakesize_m owner \<noteq> 0 \<and> size_m owner \<le> cnt' \<and> cnt' < fakesize_m owner"
    and "f \<noteq> 0 \<longrightarrow> size_m owner = s \<and> fakesize_m owner = f"
proof -
  have "node_inv (Suc g) c (size_m owner) (fakesize_m owner) i' b e cnt'
    \<and> (fl \<longleftrightarrow> fakesize_m owner \<noteq> 0 \<and> size_m owner \<le> cnt' \<and> cnt' < fakesize_m owner)
    \<and> (f \<noteq> 0 \<longrightarrow> size_m owner = s \<and> fakesize_m owner = f)"
  proof (cases "f = 0")
    case True
    have base: "c \<noteq> []" "b = 0" "e = length c" "s = 0" "cnt = g" "i = g" "g < length c"
      using ni True by (simp_all add: node_inv_def)
    show ?thesis
      using node_part_node_inv_undiscovered [OF np [unfolded base True] base(1,7)]
      by (simp add: base True)
  next
    case False
    have base: "c \<noteq> []" "b = 0" "e = length c" "s = length c" "length c \<le> f"
      "cnt = g mod f" "i = min (g mod f) (length c)"
      using ni False by (simp_all add: node_inv_def)
    show ?thesis
      using node_part_node_inv_discovered [OF np [unfolded base] base(1) False base(5)] False
      by (auto simp add: base)
  qed
  then show "node_inv (Suc g) c (size_m owner) (fakesize_m owner) i' b e cnt'"
    and "fl \<longleftrightarrow> fakesize_m owner \<noteq> 0 \<and> size_m owner \<le> cnt' \<and> cnt' < fakesize_m owner"
    and "f \<noteq> 0 \<longrightarrow> size_m owner = s \<and> fakesize_m owner = f"
    by simp_all
qed

lemma do_increment_cursor_inv:
  "cursor_inv g p it \<Longrightarrow> do_increment p it = Some (fk, p', it')
     \<Longrightarrow> cursor_inv (Suc g) p' it' \<and> (fk \<longleftrightarrow> any_fake p' it') \<and> stable p p'"
proof (induction it arbitrary: p fk p' it')
  case (BaseIter g0)
  then show ?case by (cases p) auto
next
  case (NodeIter i b e ri cnt)
  from NodeIter.prems(1) obtain c s f r where p: "p = Node c s f r"
    and ni: "node_inv g c s f i b e cnt" and ci: "cursor_inv g r ri"
    by (cases p) simp_all
  obtain fl owner i1 cnt1 where
    np: "node_part (Node c s f r) (NodeIter i b e ri cnt) = Some (fl, owner, i1, cnt1)"
    using node_part_Some by blast
  have rest: "rest_products owner = with_total (running_total owner) r"
    by (rule node_part_rest(1) [OF np])
  have ci': "cursor_inv g (rest_products owner) ri"
    using ci by (simp add: rest)
  obtain fk0 r' ri' where
    rec: "do_increment (rest_products owner) ri = Some (fk0, r', ri')"
    using do_increment_total [OF cursor_inv_same_shape [OF ci']] by blast
  have res: "fk = (fl \<or> fk0)" "p' = Node c (size_m owner) (fakesize_m owner) r'"
    "it' = NodeIter i1 b e ri' cnt1"
    using NodeIter.prems(2) rec node_part_rest(2) [OF np]
    by (simp_all add: p do_increment_Node np)
  have ih: "cursor_inv (Suc g) r' ri'" "fk0 \<longleftrightarrow> any_fake r' ri'"
    "stable (rest_products owner) r'"
    using NodeIter.IH [OF ci' rec] by simp_all
  then have "stable r r'" by (simp add: rest)
  then show ?case
    using node_part_node_inv [OF np ni] ih(1,2)
    by (simp add: res p)
qed

subsection \<open>The sequence of raw states\<close>

lemma raw_steps_snoc:
  "raw_steps (Suc n) st =
     (case raw_steps n st of
        None \<Rightarrow> None
      | Some st' \<Rightarrow> map_option snd (do_increment (fst st') (snd st')))"
proof (induction n arbitrary: st)
  case 0
  show ?case by (simp split: option.splits)
next
  case (Suc n)
  show ?case
  proof (cases "do_increment (fst st) (snd st)")
    case None
    then show ?thesis by simp
  next
    case (Some res)
    have unfold: "\<And>m. raw_steps (Suc m) st = raw_steps m (snd res)"
      using Some by simp
    show ?thesis
      unfolding unfold by (rule Suc.IH)
  qed
qed

lemma same_shape_start [simp]: "same_shape (fst (start cs)) (snd (start cs))"
  by (simp add: start_def)

lemma raw_steps_start: "raw_steps g (start cs) = Some (raw_state cs g)"
  using raw_steps_total [OF same_shape_start, of g cs] by (auto simp add: raw_state_def)

lemma raw_state_0 [simp]: "raw_state cs 0 = start cs"
  by (simp add: raw_state_def)

lemma same_shape_raw_state: "same_shape (fst (raw_state cs g)) (snd (raw_state cs g))"
  using raw_steps_total [OF same_shape_start, of g cs] by (auto simp add: raw_state_def)

lemma raw_state_Suc:
  "\<exists>fk. do_increment (fst (raw_state cs g)) (snd (raw_state cs g)) = Some (fk, raw_state cs (Suc g))"
proof -
  obtain fk p' it' where
    d: "do_increment (fst (raw_state cs g)) (snd (raw_state cs g)) = Some (fk, p', it')"
    using do_increment_total [OF same_shape_raw_state] by blast
  have rs: "raw_steps (Suc g) (start cs) = Some (p', it')"
    by (subst raw_steps_snoc) (simp add: raw_steps_start [of g cs] d del: raw_steps.simps)
  have "raw_state cs (Suc g) = (p', it')"
    unfolding raw_state_def rs by simp
  then show ?thesis using d by simp
qed

lemma cursor_inv_start:
  "[] \<notin> set cs \<Longrightarrow> cursor_inv 0 (mixed_product cs) (begin_it (mixed_product cs))"
  by (induction cs) (auto simp add: node_inv_def)

lemma fprod_mixed_product [simp]: "fprod (mixed_product cs) = 0"
  by (induction cs) simp_all

lemma cop_mixed_product [simp]: "cop (mixed_product cs)"
  by (induction cs) simp_all

lemma running_total_mixed_product [simp]: "running_total (mixed_product cs) = 0"
  by (induction cs) simp_all

lemma total_inv_start: "total_inv 0 (mixed_product cs)"
  by (simp add: total_inv_def)

lemma raw_state_inv:
  assumes "[] \<notin> set cs"
  shows "cursor_inv g (fst (raw_state cs g)) (snd (raw_state cs g))"
    and "total_inv 0 (fst (raw_state cs g))"
    and "stable (mixed_product cs) (fst (raw_state cs g))"
proof -
  have "cursor_inv g (fst (raw_state cs g)) (snd (raw_state cs g))
      \<and> total_inv 0 (fst (raw_state cs g))
      \<and> stable (mixed_product cs) (fst (raw_state cs g))"
  proof (induction g)
    case 0
    show ?case
      using assms by (simp add: start_def cursor_inv_start total_inv_start)
  next
    case (Suc g)
    obtain fk where d: "do_increment (fst (raw_state cs g)) (snd (raw_state cs g))
        = Some (fk, fst (raw_state cs (Suc g)), snd (raw_state cs (Suc g)))"
      using raw_state_Suc [of cs g] by auto
    have ci: "cursor_inv g (fst (raw_state cs g)) (snd (raw_state cs g))"
      using Suc.IH by simp
    have "cursor_inv (Suc g) (fst (raw_state cs (Suc g))) (snd (raw_state cs (Suc g)))"
      and st: "stable (fst (raw_state cs g)) (fst (raw_state cs (Suc g)))"
      using do_increment_cursor_inv [OF ci d] by simp_all
    moreover have "total_inv 0 (fst (raw_state cs (Suc g)))"
      using do_increment_total_inv [OF same_shape_raw_state _ d] Suc.IH by simp
    moreover have "stable (mixed_product cs) (fst (raw_state cs (Suc g)))"
      using stable_trans [OF _ st] Suc.IH by simp
    ultimately show ?case by simp
  qed
  then show "cursor_inv g (fst (raw_state cs g)) (snd (raw_state cs g))"
    and "total_inv 0 (fst (raw_state cs g))"
    and "stable (mixed_product cs) (fst (raw_state cs g))" by simp_all
qed

lemma raw_state_step:
  assumes "[] \<notin> set cs"
  shows "do_increment (fst (raw_state cs g)) (snd (raw_state cs g)) =
    Some (any_fake (fst (raw_state cs (Suc g))) (snd (raw_state cs (Suc g))),
          fst (raw_state cs (Suc g)), snd (raw_state cs (Suc g)))"
proof -
  obtain fk where d: "do_increment (fst (raw_state cs g)) (snd (raw_state cs g))
      = Some (fk, fst (raw_state cs (Suc g)), snd (raw_state cs (Suc g)))"
    using raw_state_Suc [of cs g] by auto
  have "fk \<longleftrightarrow> any_fake (fst (raw_state cs (Suc g))) (snd (raw_state cs (Suc g)))"
    using do_increment_cursor_inv [OF raw_state_inv(1) [OF assms] d] by simp
  then show ?thesis using d by simp
qed

lemma raw_state_stable_Suc:
  assumes "[] \<notin> set cs"
  shows "stable (fst (raw_state cs g)) (fst (raw_state cs (Suc g)))"
  using do_increment_cursor_inv [OF raw_state_inv(1) [OF assms] raw_state_step [OF assms]]
  by simp

lemma raw_state_stable:
  assumes "[] \<notin> set cs"
  shows "stable (fst (raw_state cs g)) (fst (raw_state cs (g + d)))"
proof (induction d)
  case 0
  show ?case by simp
next
  case (Suc d)
  show ?case
    using stable_trans [OF Suc.IH raw_state_stable_Suc [OF assms, of "g + d"]] by simp
qed

lemma containers_raw_state:
  assumes "[] \<notin> set cs"
  shows "containers (fst (raw_state cs g)) = cs"
  using stable_containers [OF raw_state_inv(3) [OF assms, of g]] by simp

subsection \<open>When every size is discovered\<close>

lemma cursor_inv_global_counter: "cursor_inv g p it \<Longrightarrow> global_counter it = g"
  by (induction p it rule: same_shape.induct) simp_all

lemma all_sizes_discovered_iff:
  "same_shape p it \<Longrightarrow> all_sizes_discovered p it \<longleftrightarrow> 0 \<notin> set (fakesizes p)"
  by (induction p it rule: same_shape.induct) auto

lemma cursor_inv_settled:
  "cursor_inv g p it \<Longrightarrow> 0 \<notin> set (fakesizes p) \<Longrightarrow> settled p"
  by (induction p it rule: same_shape.induct) (auto simp add: node_inv_def)

lemma cursor_inv_late:
  "cursor_inv g p it \<Longrightarrow> \<forall>c\<in>set (containers p). length c \<le> g \<Longrightarrow> 0 \<notin> set (fakesizes p)"
  by (induction p it rule: same_shape.induct) (auto simp add: node_inv_def split: if_splits)

lemma settled_fakesizes: "settled p \<Longrightarrow> 0 \<notin> set (fakesizes p)"
  by (induction p) auto

lemma settled_with_total [simp]: "settled (with_total t p) = settled p"
  by (induction p) simp_all

lemma fprod_settled:
  "settled p \<Longrightarrow> fakesizes p \<noteq> [] \<Longrightarrow> fprod p = prod_list (fakesizes p)"
proof (induction p)
  case (Base t)
  then show ?case by simp
next
  case (Node c s f r)
  show ?case
  proof (cases r)
    case (Base t)
    then show ?thesis by simp
  next
    case N: (Node c' s' f' r')
    then have "fprod r = prod_list (fakesizes r)" "settled r"
      using Node by simp_all
    moreover have "prod_list (fakesizes r) \<noteq> 0"
      using settled_fakesizes [OF \<open>settled r\<close>] by (simp add: prod_list_zero_iff)
    ultimately show ?thesis
      using Node.prems by (simp add: tcomb_def)
  qed
qed

lemma cop_settled: "settled p \<Longrightarrow> cop p \<Longrightarrow> crt_ok (fakesizes p)"
proof (induction p)
  case (Base t)
  then show ?case by simp
next
  case (Node c s f r)
  show ?case
  proof (cases r)
    case (Base t)
    then show ?thesis by simp
  next
    case N: (Node c' s' f' r')
    then have "fprod r = prod_list (fakesizes r)"
      using Node.prems fprod_settled [of r] by simp
    moreover have "prod_list (fakesizes r) \<noteq> 0"
      using settled_fakesizes [of r] Node.prems by (simp add: prod_list_zero_iff)
    ultimately show ?thesis
      using Node by (simp add: copz_def)
  qed
qed

lemma total_inv_settled:
  assumes "total_inv 0 p" "settled p" "fakesizes p \<noteq> []"
  shows "running_total p = prod_list (fakesizes p)" and "crt_ok (fakesizes p)"
  using assms fprod_settled [of p] cop_settled [of p] by (simp_all add: total_inv_def)

subsection \<open>The final padded lengths\<close>

lemma stable_settled_eq:
  "stable q p \<Longrightarrow> settled q \<Longrightarrow> fakesizes p = fakesizes q \<and> settled p"
  by (induction q p rule: stable.induct) auto

lemma stable_settled_sym: "stable q p \<Longrightarrow> settled q \<Longrightarrow> stable p q"
  by (induction q p rule: stable.induct) auto

lemma stable_both_settled:
  "stable p q \<Longrightarrow> settled p \<Longrightarrow> fakesizes q = fakesizes p"
  using stable_settled_eq by blast

lemma final_owner_settled:
  assumes "[] \<notin> set cs"
  shows "settled (final_owner cs)" and "containers (final_owner cs) = cs"
    and "stable (fst (raw_state cs g)) (final_owner cs)"
proof -
  let ?h = "sum_list (map length cs)"
  have "\<forall>c\<in>set cs. length c \<le> ?h"
    by (simp add: member_le_sum_list)
  then have "0 \<notin> set (fakesizes (final_owner cs))"
    unfolding final_owner_def
    using cursor_inv_late [OF raw_state_inv(1) [OF assms, of ?h]]
    by (simp add: containers_raw_state [OF assms])
  then show s: "settled (final_owner cs)"
    unfolding final_owner_def
    using cursor_inv_settled [OF raw_state_inv(1) [OF assms, of ?h]] by simp
  show "containers (final_owner cs) = cs"
    by (simp add: final_owner_def containers_raw_state [OF assms])
  show "stable (fst (raw_state cs g)) (final_owner cs)"
  proof (cases "g \<le> ?h")
    case True
    then show ?thesis
      using raw_state_stable [OF assms, of g "?h - g"] by (simp add: final_owner_def)
  next
    case False
    then have "stable (final_owner cs) (fst (raw_state cs g))"
      using raw_state_stable [OF assms, of ?h "g - ?h"] by (simp add: final_owner_def)
    then show ?thesis using s by (rule stable_settled_sym)
  qed
qed

lemma cycle_eq:
  assumes "[] \<notin> set cs" "cs \<noteq> []"
  shows "cycle cs = prod_list (fakesizes (final_owner cs))"
    and "crt_ok (fakesizes (final_owner cs))"
proof -
  have ne: "fakesizes (final_owner cs) \<noteq> []"
    using final_owner_settled(2) [OF assms(1)] assms(2)
    by (cases "final_owner cs") auto
  have "total_inv 0 (final_owner cs)"
    unfolding final_owner_def by (rule raw_state_inv(2) [OF assms(1)])
  from total_inv_settled [OF this final_owner_settled(1) [OF assms(1)] ne]
  show "cycle cs = prod_list (fakesizes (final_owner cs))"
    and "crt_ok (fakesizes (final_owner cs))"
    by (simp_all add: cycle_def)
qed

subsection \<open>Real and fake steps of the cycle\<close>

lemma is_fake_Node:
  "is_fake (Node c s f r) (NodeIter i b e ri cnt) \<longleftrightarrow> f \<noteq> 0 \<and> s \<le> cnt \<and> cnt < f"
  by auto

lemma node_inv_final:
  assumes ni: "node_inv g c s f i b e cnt"
    and F: "F \<noteq> 0" "length c \<le> F" "f \<noteq> 0 \<longrightarrow> s = length c \<and> F = f"
  shows "i = min (g mod F) (length c)"
    and "f \<noteq> 0 \<and> s \<le> cnt \<and> cnt < f \<longleftrightarrow> \<not> g mod F < length c"
proof -
  have "i = min (g mod F) (length c)
      \<and> (f \<noteq> 0 \<and> s \<le> cnt \<and> cnt < f \<longleftrightarrow> \<not> g mod F < length c)"
  proof (cases "f = 0")
    case True
    then have "i = g" "g < length c" using ni by (simp_all add: node_inv_def)
    moreover from this have "g mod F = g" using F(2) by simp
    ultimately show ?thesis using True by simp
  next
    case False
    then have "s = length c" "F = f" "cnt = g mod f" "i = min cnt s"
      using ni F(3) by (simp_all add: node_inv_def)
    then show ?thesis using False by auto
  qed
  then show "i = min (g mod F) (length c)"
    and "f \<noteq> 0 \<and> s \<le> cnt \<and> cnt < f \<longleftrightarrow> \<not> g mod F < length c" by simp_all
qed

lemma cursor_inv_real:
  "cursor_inv g p it \<Longrightarrow> stable p q \<Longrightarrow> settled q \<Longrightarrow>
     (any_fake p it \<longleftrightarrow> \<not> real_at g q)
     \<and> (real_at g q \<longrightarrow> deref p it = Some (tuple_at g q))
     \<and> (containers p \<noteq> [] \<longrightarrow> (ne it (end_it q) \<longleftrightarrow> real_at g q))"
proof (induction it arbitrary: p q)
  case (BaseIter g0)
  then show ?case by (cases p; cases q) simp_all
next
  case (NodeIter i b e ri cnt)
  from NodeIter.prems(1) obtain c s f r where p: "p = Node c s f r"
    and ni: "node_inv g c s f i b e cnt" and ci: "cursor_inv g r ri"
    by (cases p) simp_all
  from NodeIter.prems(2,3) p obtain s' F r' where q: "q = Node c s' F r'"
    and st: "stable r r'" and se: "settled r'"
    and F: "F \<noteq> 0" "length c \<le> F" "f \<noteq> 0 \<longrightarrow> s = length c \<and> F = f"
    by (cases q) auto
  note nf = node_inv_final [OF ni F]
  note ih = NodeIter.IH [OF ci st se]
  have l: "0 < length c" using ni by (simp add: node_inv_def)
  have i_lt: "i < length c \<longleftrightarrow> g mod F < length c" "i \<noteq> length c \<longleftrightarrow> g mod F < length c"
    using nf(1) by auto
  have fake: "any_fake p (NodeIter i b e ri cnt) \<longleftrightarrow> \<not> real_at g q"
    using nf(2) ih by (simp add: p q is_fake_Node del: is_fake.simps)
  have der: "real_at g q \<longrightarrow> deref p (NodeIter i b e ri cnt) = Some (tuple_at g q)"
    using i_lt(1) nf(1) ih by (simp add: p q)
  have "ne (NodeIter i b e ri cnt) (end_it q) \<longleftrightarrow> real_at g q"
  proof (cases ri)
    case (BaseIter g1)
    then have "r' = Base (total_fakesize_m r')"
      using st ci by (cases r; cases r') simp_all
    then have "real_at g r'" by (metis real_at.simps(1))
    then show ?thesis
      using BaseIter i_lt(2) by (simp add: q raw_eq_def)
  next
    case N: (NodeIter i2 b2 e2 ri2 cnt2)
    then have "containers r \<noteq> []"
      using ci by (cases r) simp_all
    then have "ne ri (end_it r') \<longleftrightarrow> real_at g r'" using ih by simp
    then show ?thesis
      using N i_lt(2) by (simp add: q raw_eq_def)
  qed
  then show ?case using fake der by simp
qed

lemma end_it_containers: "containers p = containers q \<Longrightarrow> end_it p = end_it q"
proof (induction p arbitrary: q)
  case (Base t)
  then show ?case by (cases q) simp_all
next
  case (Node c s f r)
  from Node.prems obtain s' f' r' where q: "q = Node c s' f' r'"
    and r: "containers r = containers r'"
    by (cases q) simp_all
  show ?case
    using Node.IH [OF r] by (simp add: q)
qed

lemma ne_self [simp]: "\<not> ne it it"
  by (induction it) (simp_all add: raw_eq_def)

lemma raw_state_real:
  assumes "[] \<notin> set cs"
  shows "any_fake (fst (raw_state cs g)) (snd (raw_state cs g))
      \<longleftrightarrow> \<not> real_at g (final_owner cs)"
    and "real_at g (final_owner cs) \<Longrightarrow>
      deref (fst (raw_state cs g)) (snd (raw_state cs g)) = Some (tuple_at g (final_owner cs))"
    and "cs \<noteq> [] \<Longrightarrow>
      ne (snd (raw_state cs g)) (end_it (mixed_product cs)) \<longleftrightarrow> real_at g (final_owner cs)"
proof -
  note fo = final_owner_settled [OF assms]
  note r = cursor_inv_real [OF raw_state_inv(1) [OF assms, of g] fo(3) fo(1)]
  have e: "end_it (mixed_product cs) = end_it (final_owner cs)"
    by (rule end_it_containers) (simp add: fo(2))
  show "any_fake (fst (raw_state cs g)) (snd (raw_state cs g))
      \<longleftrightarrow> \<not> real_at g (final_owner cs)"
    using r by simp
  show "real_at g (final_owner cs) \<Longrightarrow>
      deref (fst (raw_state cs g)) (snd (raw_state cs g)) = Some (tuple_at g (final_owner cs))"
    using r by simp
  show "cs \<noteq> [] \<Longrightarrow>
      ne (snd (raw_state cs g)) (end_it (mixed_product cs)) \<longleftrightarrow> real_at g (final_owner cs)"
    using r by (simp add: e containers_raw_state [OF assms])
qed

subsection \<open>The end of the cycle\<close>

lemma prod_list_pos: "0 \<notin> set xs \<Longrightarrow> 0 < prod_list (xs :: nat list)"
  by (induction xs) auto

lemma le_mult_pos: "0 < (b::nat) \<Longrightarrow> a \<le> a * b" "0 < (b::nat) \<Longrightarrow> a \<le> b * a"
  by (cases b; simp)+

lemma settled_length_le_prod:
  "settled q \<Longrightarrow> \<forall>c\<in>set (containers q). length c \<le> prod_list (fakesizes q)"
proof (induction q)
  case (Base t)
  then show ?case by simp
next
  case (Node c s f r)
  then have pos: "0 < prod_list (fakesizes r)" "0 < f"
    using prod_list_pos [OF settled_fakesizes [of r]] by simp_all
  have "length c \<le> f" using Node.prems by simp
  then have "length c \<le> f * prod_list (fakesizes r)"
    using le_mult_pos(1) [OF pos(1), of f] by linarith
  moreover have "length c' \<le> f * prod_list (fakesizes r)" if "c' \<in> set (containers r)" for c'
  proof -
    have "length c' \<le> prod_list (fakesizes r)" using Node that by simp
    then show ?thesis
      using le_mult_pos(2) [OF pos(2), of "prod_list (fakesizes r)"] by linarith
  qed
  ultimately show ?case by simp
qed

lemma cycle_pos:
  assumes "[] \<notin> set cs" "cs \<noteq> []"
  shows "0 < cycle cs"
  using prod_list_pos [OF settled_fakesizes [OF final_owner_settled(1) [OF assms(1)]]]
  by (simp add: cycle_eq(1) [OF assms])

lemma check_iff:
  assumes "[] \<notin> set cs" "cs \<noteq> []"
  shows "all_sizes_discovered (fst (raw_state cs g)) (snd (raw_state cs g))
      \<and> global_counter (snd (raw_state cs g)) = running_total (fst (raw_state cs g))
    \<longleftrightarrow> g = cycle cs"
proof -
  let ?P = "fst (raw_state cs g)" and ?I = "snd (raw_state cs g)"
  note fo = final_owner_settled [OF assms(1)]
  note inv = raw_state_inv [OF assms(1), of g]
  have gc: "global_counter ?I = g"
    by (rule cursor_inv_global_counter [OF inv(1)])
  have asd: "all_sizes_discovered ?P ?I \<longleftrightarrow> 0 \<notin> set (fakesizes ?P)"
    by (rule all_sizes_discovered_iff [OF same_shape_raw_state])
  have known: "running_total ?P = cycle cs" if z: "0 \<notin> set (fakesizes ?P)"
  proof -
    have s: "settled ?P" by (rule cursor_inv_settled [OF inv(1) z])
    have eq: "fakesizes (final_owner cs) = fakesizes ?P"
      by (rule stable_both_settled [OF fo(3) s])
    have "fakesizes ?P \<noteq> []"
      using containers_raw_state [OF assms(1), of g] assms(2) by (cases ?P) auto
    from total_inv_settled(1) [OF inv(2) s this] show ?thesis
      by (simp add: cycle_eq(1) [OF assms] eq)
  qed
  have late: "0 \<notin> set (fakesizes ?P)" if "g = cycle cs"
  proof -
    have "\<forall>c\<in>set cs. length c \<le> g"
      using settled_length_le_prod [OF fo(1)] that
      by (simp add: fo(2) cycle_eq(1) [OF assms])
    then show ?thesis
      using cursor_inv_late [OF inv(1)] by (simp add: containers_raw_state [OF assms(1)])
  qed
  show ?thesis
    using known late by (auto simp add: gc asd)
qed

lemma operator_inc_raw_state:
  assumes "[] \<notin> set cs" "cs \<noteq> []"
  shows "operator_inc (raw_state cs g) =
    (if Suc g = cycle cs then Some (cursor_at cs (Suc g))
     else if \<not> real_at (Suc g) (final_owner cs) then operator_inc (raw_state cs (Suc g))
     else Some (cursor_at cs (Suc g)))"
proof -
  let ?S = "raw_state cs (Suc g)"
  have e: "\<And>k. end_it (fst (raw_state cs k)) = end_it (mixed_product cs)"
    by (rule end_it_containers) (simp add: containers_raw_state [OF assms(1)])
  have step: "do_increment (fst (raw_state cs g)) (snd (raw_state cs g)) =
      Some (\<not> real_at (Suc g) (final_owner cs), ?S)"
    using raw_state_step [OF assms(1), of g] raw_state_real(1) [OF assms(1), of "Suc g"]
    by simp
  have chk: "all_sizes_discovered (fst ?S) (snd ?S)
      \<and> global_counter (snd ?S) = fst (total_fakesize 0 (fst ?S)) \<longleftrightarrow> Suc g = cycle cs"
    using check_iff [OF assms, of "Suc g"] by (simp add: running_total_def)
  have "operator_inc (raw_state cs g) =
    (if Suc g = cycle cs then Some (fst ?S, end_it (fst ?S))
     else if \<not> real_at (Suc g) (final_owner cs) then operator_inc ?S
     else Some ?S)"
    by (subst operator_inc.simps) (simp only: step option.case fst_conv snd_conv chk)
  then show ?thesis
    by (simp add: cursor_at_def e)
qed

lemma operator_inc_skip:
  assumes "[] \<notin> set cs" "cs \<noteq> []" "g < cycle cs"
  shows "\<exists>g'. g < g' \<and> g' \<le> cycle cs
      \<and> (\<forall>j. g < j \<and> j < g' \<longrightarrow> \<not> real_at j (final_owner cs))
      \<and> (g' < cycle cs \<longrightarrow> real_at g' (final_owner cs))
      \<and> operator_inc (raw_state cs g) = Some (cursor_at cs g')"
  using assms(3)
proof (induction "cycle cs - Suc g" arbitrary: g)
  case 0
  then have eq: "Suc g = cycle cs" by simp
  have "operator_inc (raw_state cs g) = Some (cursor_at cs (Suc g))"
    using operator_inc_raw_state [OF assms(1,2), of g] eq by simp
  moreover have "\<forall>j. g < j \<and> j < Suc g \<longrightarrow> \<not> real_at j (final_owner cs)"
    by auto
  ultimately show ?case
    using eq by (intro exI [of _ "Suc g"]) simp
next
  case (Suc d)
  then have lt: "Suc g < cycle cs" by simp
  show ?case
  proof (cases "real_at (Suc g) (final_owner cs)")
    case True
    have "operator_inc (raw_state cs g) = Some (cursor_at cs (Suc g))"
      using operator_inc_raw_state [OF assms(1,2), of g] True by simp
    moreover have "\<forall>j. g < j \<and> j < Suc g \<longrightarrow> \<not> real_at j (final_owner cs)"
      by auto
    ultimately show ?thesis
      using lt True by (intro exI [of _ "Suc g"]) simp
  next
    case False
    have "d = cycle cs - Suc (Suc g)" using Suc.hyps(2) by simp
    from Suc.hyps(1) [OF this lt] obtain g' where g': "Suc g < g'" "g' \<le> cycle cs"
      "\<forall>j. Suc g < j \<and> j < g' \<longrightarrow> \<not> real_at j (final_owner cs)"
      "g' < cycle cs \<longrightarrow> real_at g' (final_owner cs)"
      "operator_inc (raw_state cs (Suc g)) = Some (cursor_at cs g')"
      by blast
    have skip: "\<forall>j. g < j \<and> j < g' \<longrightarrow> \<not> real_at j (final_owner cs)"
    proof (intro allI impI)
      fix j assume "g < j \<and> j < g'"
      then have "j = Suc g \<or> (Suc g < j \<and> j < g')" by linarith
      then show "\<not> real_at j (final_owner cs)" using False g'(3) by blast
    qed
    have "operator_inc (raw_state cs g) = Some (cursor_at cs g')"
      using operator_inc_raw_state [OF assms(1,2), of g] lt False g'(5) by simp
    moreover have "g < g'" using g'(1) by simp
    ultimately show ?thesis
      using g'(2,4) skip by blast
  qed
qed

subsection \<open>The traversal\<close>

lemma real_steps_skip:
  assumes "g < g'" "g' \<le> cycle cs" "real_at g (final_owner cs)"
    "\<forall>j. g < j \<and> j < g' \<longrightarrow> \<not> real_at j (final_owner cs)"
  shows "real_steps cs g = g # real_steps cs g'"
proof -
  have "[Suc g..<g' + (cycle cs - g')] = [Suc g..<g'] @ [g'..<g' + (cycle cs - g')]"
    using assms(1) by (intro upt_add_eq_append) simp
  then have "[Suc g..<cycle cs] = [Suc g..<g'] @ [g'..<cycle cs]"
    using assms(2) by simp
  moreover have "[g..<cycle cs] = g # [Suc g..<cycle cs]"
    using assms(1,2) by (intro upt_conv_Cons) simp
  ultimately have "[g..<cycle cs] = g # [Suc g..<g'] @ [g'..<cycle cs]"
    by simp
  moreover have "filter (\<lambda>j. real_at j (final_owner cs)) [Suc g..<g'] = []"
    using assms(4) by (auto simp add: filter_empty_conv)
  ultimately show ?thesis
    using assms(3) by (simp add: real_steps_def)
qed

lemma collect_cursor_at:
  assumes "[] \<notin> set cs" "cs \<noteq> []"
  shows "g \<le> cycle cs \<Longrightarrow> (g < cycle cs \<longrightarrow> real_at g (final_owner cs)) \<Longrightarrow>
    collect (cursor_at cs g) (end_it (mixed_product cs)) acc =
      Some (acc @ map (\<lambda>j. tuple_at j (final_owner cs)) (real_steps cs g))"
proof (induction "cycle cs - g" arbitrary: g acc rule: less_induct)
  case less
  show ?case
  proof (cases "g = cycle cs")
    case True
    then show ?thesis
      by (subst collect.simps) (simp add: cursor_at_def real_steps_def)
  next
    case False
    then have lt: "g < cycle cs" and real: "real_at g (final_owner cs)"
      using less.prems by simp_all
    have c: "cursor_at cs g = raw_state cs g"
      using False by (simp add: cursor_at_def)
    from operator_inc_skip [OF assms lt] obtain g' where g': "g < g'" "g' \<le> cycle cs"
      "\<forall>j. g < j \<and> j < g' \<longrightarrow> \<not> real_at j (final_owner cs)"
      "g' < cycle cs \<longrightarrow> real_at g' (final_owner cs)"
      "operator_inc (raw_state cs g) = Some (cursor_at cs g')"
      by blast
    have "cycle cs - g' < cycle cs - g" using g'(1) lt by simp
    from less.hyps [OF this g'(2,4)]
    have ih: "collect (cursor_at cs g') (end_it (mixed_product cs))
        (acc @ [tuple_at g (final_owner cs)]) =
      Some ((acc @ [tuple_at g (final_owner cs)])
        @ map (\<lambda>j. tuple_at j (final_owner cs)) (real_steps cs g'))" .
    show ?thesis
      by (subst collect.simps)
        (simp add: c raw_state_real(2,3) [OF assms(1)] assms(2) real g'(5) ih
          real_steps_skip [OF g'(1,2) real g'(3)])
  qed
qed

lemma real_at_0: "settled q \<Longrightarrow> real_at 0 q"
  by (induction q) simp_all

lemma traverse_eq:
  assumes "[] \<notin> set cs" "cs \<noteq> []"
  shows "traverse cs = Some (map (\<lambda>j. tuple_at j (final_owner cs)) (real_steps cs 0))"
proof -
  have "cursor_at cs 0 = start cs"
    using cycle_pos [OF assms] by (simp add: cursor_at_def)
  then show ?thesis
    using collect_cursor_at [OF assms, of 0 "[]"]
      real_at_0 [OF final_owner_settled(1) [OF assms(1)]]
    by (simp add: traverse_def start_def Let_def)
qed

subsection \<open>The Chinese remainder theorem for the padded lengths\<close>


lemma residues_simps [simp]:
  "residues [] g = []"
  "residues (f # fs) g = (g mod f) # residues fs g"
  by (simp_all add: residues_def)

lemma length_residues [simp]: "length (residues fs g) = length fs"
  by (simp add: residues_def)








subsection \<open>The real steps of the cycle and the product of the containers\<close>










subsection \<open>Reachable cursors\<close>



subsection \<open>Discovery events\<close>

lemma discovery_events_with_total [simp]:
  "discovery_events t (with_total u p) p' t' = discovery_events t p p' t'"
  by (induction t p p' t' rule: discovery_events.induct) simp_all


lemma do_increment_events:
  "cursor_inv g p it \<Longrightarrow> do_increment p it = Some (fk, p', it')
     \<Longrightarrow> discovery_events (running_total p) p p' (running_total p')"
proof (induction it arbitrary: p fk p' it')
  case (BaseIter g0)
  then show ?case by (cases p) auto
next
  case (NodeIter i b e ri cnt)
  from NodeIter.prems(1) obtain c s f r where p: "p = Node c s f r"
    and ni: "node_inv g c s f i b e cnt" and ci: "cursor_inv g r ri"
    by (cases p) simp_all
  obtain fl owner i1 cnt1 where
    np: "node_part (Node c s f r) (NodeIter i b e ri cnt) = Some (fl, owner, i1, cnt1)"
    using node_part_Some by blast
  have rest: "rest_products owner = with_total (running_total owner) r"
    by (rule node_part_rest(1) [OF np])
  have ci': "cursor_inv g (rest_products owner) ri"
    using ci by (simp add: rest)
  obtain fk0 r' ri' where
    rec: "do_increment (rest_products owner) ri = Some (fk0, r', ri')"
    using do_increment_total [OF cursor_inv_same_shape [OF ci']] by blast
  have p': "p' = Node c (size_m owner) (fakesize_m owner) r'"
    using NodeIter.prems(2) rec node_part_rest(2) [OF np]
    by (simp add: p do_increment_Node np)
  have ih: "discovery_events (running_total owner) r r' (running_total r')"
    using NodeIter.IH [OF ci' rec] by (simp add: rest)
  let ?T = "running_total r"
  show ?case
  proof (cases "f = 0 \<and> i + 1 = e")
    case False
    then have own: "owner = Node c s f r"
      using node_part_owner [OF np] by auto
    show ?thesis
      using ih by (auto simp add: p p' own)
  next
    case True
    then have base: "i = g" "cnt = g" "e = length c" "Suc g = length c"
      using ni by (auto simp add: node_inv_def)
    define nc where "nc = padded (Suc g) ?T"
    have own: "owner = discovered c (Suc g) r"
      using node_part_owner [OF np] True base by simp
    have nc: "Suc g \<le> nc" unfolding nc_def by (rule padded_ge)
    then have nz: "nc \<noteq> 0" by simp
    have sel0: "size_m owner = Suc g" "fakesize_m owner = nc"
      "running_total owner = tcomb nc ?T"
      by (simp_all add: own nc_def)
    have sel: "size_m owner = length c" "fakesize_m owner = nc"
      "running_total owner = (if ?T = 0 then nc else nc * ?T)"
      using nz sel0 base(4) by (simp_all add: tcomb_def)
    have pad: "if ?T = 0 then nc = length c else gcd_mp nc ?T = 1"
    proof (cases "?T = 0")
      case True
      then show ?thesis by (simp add: nc_def padded_def base(4))
    next
      case False
      then have "coprime nc ?T"
        using next_coprime_props(2) [of ?T "Suc g"] by (simp add: nc_def padded_def)
      then show ?thesis using False by (simp add: gcd_mp_Suc_0_iff)
    qed
    show ?thesis
      using ih pad nc nz True base(4) by (simp add: p p' sel del: One_nat_def)
  qed
qed

subsection \<open>A single container\<close>

lemma single_chain:
  assumes "containers p = [c]"
  obtains s f t where "p = Node c s f (Base t)"
proof -
  from assms obtain s f r where p: "p = Node c s f r" and r: "containers r = []"
    by (cases p) auto
  from r obtain t where "r = Base t" by (cases r) auto
  then show ?thesis using p that by blast
qed

lemma single_fakesizes:
  assumes "c \<noteq> []"
  shows "fakesizes (fst (raw_state [c] g)) = [0] \<or> fakesizes (fst (raw_state [c] g)) = [length c]"
proof (induction g)
  case 0
  show ?case by (simp add: start_def)
next
  case (Suc g)
  have cs: "[] \<notin> set [c]" using assms by simp
  let ?p = "fst (raw_state [c] g)" and ?p' = "fst (raw_state [c] (Suc g))"
  obtain s f t where p: "?p = Node c s f (Base t)"
    using containers_raw_state [OF cs, of g] by (rule single_chain)
  obtain s' f' t' where p': "?p' = Node c s' f' (Base t')"
    using containers_raw_state [OF cs, of "Suc g"] by (rule single_chain)
  have "running_total ?p = f"
    using raw_state_inv(2) [OF cs, of g] by (simp add: total_inv_def p)
  moreover have "discovery_events (running_total ?p) ?p ?p' (running_total ?p')"
    by (rule do_increment_events [OF raw_state_inv(1) [OF cs] raw_state_step [OF cs]])
  ultimately have "f' = f \<or> (f = 0 \<and> f' = length c)"
    by (auto simp add: p p' split: if_splits)
  then show ?case
    using Suc.IH by (auto simp add: p p')
qed

lemma single_final_owner:
  assumes "c \<noteq> []"
  obtains t where "final_owner [c] = Node c (length c) (length c) (Base t)"
proof -
  have cs: "[] \<notin> set [c]" using assms by simp
  note fo = final_owner_settled [OF cs]
  obtain s f t where q: "final_owner [c] = Node c s f (Base t)"
    using fo(2) by (rule single_chain)
  have "fakesizes (final_owner [c]) = [0] \<or> fakesizes (final_owner [c]) = [length c]"
    unfolding final_owner_def by (rule single_fakesizes [OF assms])
  then have "f = 0 \<or> f = length c"
    by (simp add: q)
  then have "f = length c" "s = length c" using fo(1) by (auto simp add: q)
  then show ?thesis using q that by blast
qed

lemma single_traverse:
  assumes "c \<noteq> []"
  shows "traverse [c] = Some (map (\<lambda>x. [x]) c)"
    and "real_at g (final_owner [c])"
proof -
  have cs: "[] \<notin> set [c]" "[c] \<noteq> []" using assms by simp_all
  obtain t where q: "final_owner [c] = Node c (length c) (length c) (Base t)"
    using assms by (rule single_final_owner)
  have l: "0 < length c" using assms by simp
  show r: "real_at g (final_owner [c])" for g
    using l by (simp add: q)
  have "cycle [c] = length c"
    by (simp add: cycle_eq(1) [OF cs] q)
  then have "real_steps [c] 0 = [0..<length c]"
    using r by (simp add: real_steps_def)
  then have "traverse [c] = Some (map (\<lambda>j. [c ! j]) [0..<length c])"
    by (simp add: traverse_eq [OF cs] q)
  also have "map (\<lambda>j. [c ! j]) [0..<length c] = map (\<lambda>x. [x]) (map (nth c) [0..<length c])"
    by simp
  also have "\<dots> = map (\<lambda>x. [x]) c"
    by (simp only: map_nth)
  finally show "traverse [c] = Some (map (\<lambda>x. [x]) c)" .
qed

lemma traverse_empty_container: "[] \<in> set cs \<Longrightarrow> traverse cs = Some []"
  by (simp add: traverse_def Let_def collect.simps ne_begin_end)

section \<open>The claims\<close>







text \<open>
  Claim C4. For the inputs \<open>{0,1}\<close> and \<open>{0,1,2,3}\<close> the traversal returns exactly the eight
  tuples \<open>(0,0), (1,1), (0,2), (1,3), (1,0), (0,1), (1,2), (0,3)\<close>, in this order: the
  product of the true lengths many, and none built from a padding position.
\<close>

theorem traverse_not_coprime:
  "traverse [[0, 1], [0, 1, 2, 3 :: nat]] =
     Some [[0, 0], [1, 1], [0, 2], [1, 3], [1, 0], [0, 1], [1, 2], [0, 3]]"
  by code_simp

text \<open>
  Claim C5. When one of the input sequences is empty, at whatever position,
  \<^verbatim>\<open>begin() == end()\<close> holds.
\<close>

theorem begin_eq_end_if_empty:
  assumes "[] \<in> set cs"
  shows "eq (begin_it (mixed_product cs)) (end_it (mixed_product cs))"
  using assms by (simp add: eq_def ne_begin_end)

theorem begin_eq_end_if_empty_witness:
  "eq (begin_it (mixed_product [[0, 1], [], [0, 1, 2 :: nat]]))
      (end_it (mixed_product [[0, 1], [], [0, 1, 2 :: nat]]))"
  using begin_eq_end_if_empty [of "[[0, 1], [], [0, 1, 2 :: nat]]"] by simp

text \<open>
  Claim C6 states that two cursors of one generator compare equal if and only if every
  node's raw cursor equals its counterpart. The source defines \<^verbatim>\<open>operator!=\<close> as the
  conjunction of the nodes' inequalities, so \<^verbatim>\<open>operator==\<close> holds as soon as one node's
  raw cursor equals its counterpart: for the inputs \<open>{}\<close> and \<open>{1}\<close> the begin and the end
  cursor are equal although the raw cursors of the second node differ.
\<close>

theorem eq_not_pairwise_counterexample:
  "eq (begin_it (mixed_product [[], [1 :: nat]])) (end_it (mixed_product [[], [1 :: nat]]))
   \<and> iters (begin_it (mixed_product [[], [1 :: nat]])) = [0, 0]
   \<and> iters (end_it (mixed_product [[], [1 :: nat]])) = [0, 1]"
  by (simp add: eq_def raw_eq_def)

text \<open>
  Claim C6, amended. Two cursors of one generator with at least one node compare equal
  if and only if the raw cursor of at least one node equals its counterpart; two
  cursors of the zero-node class always compare equal.
\<close>

theorem eq_iff_some_node_equal:
  "(same_shape p a \<and> same_shape p b \<and> iters a \<noteq> [] \<longrightarrow>
      (eq a b \<longleftrightarrow> (\<exists>k<length (iters a). iters a ! k = iters b ! k)))
   \<and> eq (BaseIter g) (BaseIter g')"
  by (auto simp add: eq_def ne_iff)

theorem eq_iff_some_node_equal_witness:
  "eq (begin_it (mixed_product [[], [1 :: nat]])) (end_it (mixed_product [[], [1 :: nat]]))
     \<longleftrightarrow> (\<exists>k<length (iters (begin_it (mixed_product [[], [1 :: nat]]))).
            iters (begin_it (mixed_product [[], [1 :: nat]])) ! k
            = iters (end_it (mixed_product [[], [1 :: nat]])) ! k)"
  using eq_iff_some_node_equal [of "mixed_product [[], [1 :: nat]]"
      "begin_it (mixed_product [[], [1 :: nat]])" "end_it (mixed_product [[], [1 :: nat]])"]
  by simp

text \<open>
  Claim C7. \<^verbatim>\<open>is_fake()\<close> holds if and only if the node has discovered its length (the
  padded length is not \<open>0\<close>) and the lap counter lies in the padding region: it is at
  least the true length and below the padded length. In a state in which the counter
  of a node that has discovered its length is below the padded length, this is the case
  exactly when the counter is at least the true length. (\<^verbatim>\<open>do_increment\<close> also calls
  \<^verbatim>\<open>is_fake()\<close> right after it has incremented the counter, when the counter may equal
  the padded length; there the counter is outside the padding region and \<^verbatim>\<open>is_fake()\<close> is
  false, which makes the node wrap around.)
\<close>

theorem is_fake_iff:
  "(is_fake (Node c s f r) (NodeIter i b e ri cnt) \<longleftrightarrow> f \<noteq> 0 \<and> s \<le> cnt \<and> cnt < f)
   \<and> ((f \<noteq> 0 \<longrightarrow> cnt < f) \<longrightarrow>
        (is_fake (Node c s f r) (NodeIter i b e ri cnt) \<longleftrightarrow> f \<noteq> 0 \<and> s \<le> cnt))"
  by auto

theorem is_fake_iff_witness:
  "is_fake (Node [0, 1, 2, 3 :: nat] 4 5 (Base 10)) (NodeIter 4 0 4 (BaseIter 4) 4)"
  using is_fake_iff [of "[0, 1, 2, 3 :: nat]" 4 5 "Base 10" 4 0 4 "BaseIter 4" 4] by simp

text \<open>
  Claim C8. For exactly one input sequence the traversal returns the elements of the
  sequence, each as a 1-tuple, in the order of the sequence, so as many tuples as the
  sequence has elements; and none of the calls of \<^verbatim>\<open>do_increment\<close> that the traversal
  makes returns that a node is fake, so no step is skipped.
\<close>

theorem single_sequence:
  "traverse [c] = Some (map (\<lambda>x. [x]) c)
   \<and> (\<forall>g<length c. \<exists>st p' it'. raw_steps g (start [c]) = Some st
         \<and> do_increment (fst st) (snd st) = Some (False, p', it'))"
proof (cases "c = []")
  case True
  then show ?thesis by (simp add: traverse_empty_container)
next
  case False
  then have cs: "[] \<notin> set [c]" by simp
  have "\<exists>st p' it'. raw_steps g (start [c]) = Some st
         \<and> do_increment (fst st) (snd st) = Some (False, p', it')" for g
    using raw_state_step [OF cs, of g] raw_state_real(1) [OF cs, of "Suc g"]
      single_traverse(2) [OF False, of "Suc g"]
    by (simp add: raw_steps_start del: raw_steps.simps)
  then show ?thesis
    using single_traverse(1) [OF False] by blast
qed

theorem single_sequence_witness:
  "traverse [''ab''] = Some [''a'', ''b'']"
  using single_sequence [of "''ab''"] by simp



text \<open>
  Claim C10 states that \<^verbatim>\<open>global_counter()\<close> always equals the number of raw advance
  steps taken since \<^verbatim>\<open>begin()\<close>. When \<^verbatim>\<open>operator++\<close> finds the cycle complete it assigns
  \<^verbatim>\<open>owner->end()\<close> to the cursor, and the zero-node iterator of that end cursor has
  counter \<open>0\<close>: for the single input \<open>{0}\<close> the first \<^verbatim>\<open>operator++\<close> calls \<^verbatim>\<open>do_increment\<close>
  once, which sets the global counter to \<open>1\<close>, and leaves a cursor whose global counter
  is \<open>0\<close>.
\<close>

theorem global_counter_reset_counterexample:
  "do_increment (mixed_product [[0 :: nat]]) (begin_it (mixed_product [[0 :: nat]])) =
     Some (False, Node [0] 1 1 (Base 1), NodeIter 0 0 1 (BaseIter 1) 0)
   \<and> operator_inc (mixed_product [[0 :: nat]], begin_it (mixed_product [[0 :: nat]])) =
     Some (Node [0] 1 1 (Base 1), NodeIter 1 1 1 (BaseIter 0) 0)
   \<and> global_counter (NodeIter 1 1 1 (BaseIter 0) 0) = 0"
  by code_simp

text \<open>
  Claim C10, amended. Every call of \<^verbatim>\<open>do_increment\<close> on a cursor of the generator
  returns and increments the counter of the zero-node iterator by exactly one, on the
  carry path and on the no-carry path of each node. So after \<open>n\<close> calls of
  \<^verbatim>\<open>do_increment\<close> on the cursor that \<^verbatim>\<open>begin()\<close> returned, \<^verbatim>\<open>global_counter()\<close> is \<open>n\<close>,
  whether or not steps were skipped as fake.
\<close>

theorem global_counter_counts_raw_steps:
  "(same_shape p it \<longrightarrow>
      (\<exists>fk p' it'. do_increment p it = Some (fk, p', it')
         \<and> global_counter it' = global_counter it + 1))
   \<and> (\<exists>st. raw_steps n (mixed_product cs, begin_it (mixed_product cs)) = Some st
         \<and> global_counter (snd st) = n)"
proof -
  have "\<exists>fk p' it'. do_increment p it = Some (fk, p', it')
         \<and> global_counter it' = global_counter it + 1" if "same_shape p it"
    using do_increment_total [OF that] by blast
  moreover have "\<exists>st. raw_steps n (mixed_product cs, begin_it (mixed_product cs)) = Some st
         \<and> global_counter (snd st) = n"
    using raw_steps_total [of "(mixed_product cs, begin_it (mixed_product cs))" n] by auto
  ultimately show ?thesis by blast
qed

theorem global_counter_counts_raw_steps_witness:
  "(\<exists>fk p' it'. do_increment (Node [0, 1 :: nat] 0 0 (Base 0)) (NodeIter 0 0 2 (BaseIter 0) 0)
        = Some (fk, p', it') \<and> global_counter it' = 1)
   \<and> (\<exists>st. raw_steps 5 (mixed_product [[0, 1], [0, 1, 2, 3 :: nat]],
              begin_it (mixed_product [[0, 1], [0, 1, 2, 3 :: nat]])) = Some st
         \<and> global_counter (snd st) = 5)"
  using global_counter_counts_raw_steps [of "Node [0, 1 :: nat] 0 0 (Base 0)"
      "NodeIter 0 0 2 (BaseIter 0) 0" 5 "[[0, 1], [0, 1, 2, 3 :: nat]]"]
  by simp

end
